theory Spec2Isabelle
  imports Main "HOL-Library.Word" "HOL-Library.Sublist"
begin

unbundle bit_operations_syntax

section \<open>The I2C transport\<close>

text \<open>
  Both drivers (\<^verbatim>\<open>sh1106.py\<close>, \<^verbatim>\<open>ssd1306.py\<close>) talk to the panel through one call,
  \<^verbatim>\<open>self.i2c.writeto(self.addr, data)\<close>. Python integers are unbounded and are modelled
  as \<open>int\<close>; the elements of a \<^verbatim>\<open>bytearray\<close> are bytes.
\<close>

type_synonym byte = "8 word"

datatype error = ValueError | OSError | AttributeError | InvalidDimension

text \<open>
  Modelled from the spec: the injected transport of section 6, a synchronous
  \<^verbatim>\<open>write(address, bytes) -> Result<(), TransportError>\<close> (MicroPython's
  \<^verbatim>\<open>machine.I2C.writeto\<close>, which is not part of the repository). The bus records every
  transaction that went through (\<open>sent\<close>), counts the transactions attempted so far, and
  \<open>fails k\<close> says whether the \<open>k\<close>-th attempted transaction raises \<^verbatim>\<open>OSError\<close>; any
  pattern of transport failures is some \<open>fails\<close>.
\<close>

record i2c_bus =
  sent :: "(int \<times> byte list) list"
  attempts :: nat
  fails :: "nat \<Rightarrow> bool"

definition writeto :: "i2c_bus \<Rightarrow> int \<Rightarrow> byte list \<Rightarrow> error option \<times> i2c_bus" where
  "writeto bus a data =
     (if fails bus (attempts bus)
      then (Some OSError, bus\<lparr>attempts := Suc (attempts bus)\<rparr>)
      else (None, bus\<lparr>sent := sent bus @ [(a, data)], attempts := Suc (attempts bus)\<rparr>))"

section \<open>Outcomes and sequencing\<close>

text \<open>
  A method mutates the object in place and either returns or raises. It is modelled as a
  function from the object's state to a pair: \<open>None\<close> (returned) or \<open>Some e\<close> (raised
  \<open>e\<close>), and the state the object is left in. \<open>andthen\<close> is Python's statement
  sequencing: once a statement has raised, the rest is skipped.
\<close>

type_synonym 's outcome = "error option \<times> 's"

definition andthen :: "'s outcome \<Rightarrow> ('s \<Rightarrow> 's outcome) \<Rightarrow> 's outcome" where
  "andthen r f = (case fst r of Some e \<Rightarrow> r | None \<Rightarrow> f (snd r))"

fun block :: "('s \<Rightarrow> 's outcome) list \<Rightarrow> 's \<Rightarrow> 's outcome" where
  "block [] s = (None, s)"
| "block (f # fs) s = andthen (f s) (block fs)"

section \<open>Python built-ins used by the drivers\<close>

text \<open>\<^verbatim>\<open>bytearray([b0, b1, ...])\<close>: raises \<^verbatim>\<open>ValueError\<close> unless every item is in
  \<^verbatim>\<open>range(256)\<close>; \<open>None\<close> stands for the raise.\<close>

definition bytearray_of :: "int list \<Rightarrow> byte list option" where
  "bytearray_of xs =
     (if list_all (\<lambda>x. 0 \<le> x \<and> x < 256) xs then Some (map word_of_int xs) else None)"

text \<open>\<^verbatim>\<open>xs[a:b]\<close> for arbitrary integers: a negative index counts from the end, and
  both ends are clamped to the sequence.\<close>

definition py_slice :: "'a list \<Rightarrow> int \<Rightarrow> int \<Rightarrow> 'a list" where
  "py_slice xs a b =
     (let n = int (length xs);
          lo = (if a < 0 then max (a + n) 0 else min a n);
          hi = (if b < 0 then max (b + n) 0 else min b n)
      in take (nat (hi - lo)) (drop (nat lo) xs))"

text \<open>\<^verbatim>\<open>range(n)\<close>: empty for \<open>n \<le> 0\<close>.\<close>

definition py_range :: "int \<Rightarrow> int list" where
  "py_range n = map int [0..<nat n]"

section \<open>Command constants\<close>

text \<open>The constants of \<^verbatim>\<open>sh1106.py\<close> lines 9-27 and \<^verbatim>\<open>ssd1306.py\<close> lines 11-27; the
  names the two files share have the same values.\<close>

definition SET_CONTRAST :: int where "SET_CONTRAST = 0x81"
definition SET_ENTIRE_ON :: int where "SET_ENTIRE_ON = 0xA4"
definition SET_NORM_INV :: int where "SET_NORM_INV = 0xA6"
definition SET_DISP :: int where "SET_DISP = 0xAE"
definition SET_MEM_ADDR :: int where "SET_MEM_ADDR = 0x20"
definition SET_COL_ADDR :: int where "SET_COL_ADDR = 0x21"
definition SET_PAGE_ADDR :: int where "SET_PAGE_ADDR = 0x22"
definition SET_DISP_START_LINE :: int where "SET_DISP_START_LINE = 0x40"
definition SET_SEG_REMAP :: int where "SET_SEG_REMAP = 0xA0"
definition SET_MUX_RATIO :: int where "SET_MUX_RATIO = 0xA8"
definition SET_COM_OUT_DIR :: int where "SET_COM_OUT_DIR = 0xC0"
definition SET_DISP_OFFSET :: int where "SET_DISP_OFFSET = 0xD3"
definition SET_COM_PIN_CFG :: int where "SET_COM_PIN_CFG = 0xDA"
definition SET_DISP_CLK_DIV :: int where "SET_DISP_CLK_DIV = 0xD5"
definition SET_PRECHARGE :: int where "SET_PRECHARGE = 0xD9"
definition SET_VCOM_DESEL :: int where "SET_VCOM_DESEL = 0xDB"
definition SET_CHARGE_PUMP :: int where "SET_CHARGE_PUMP = 0x8D"
definition SH1106_SET_PAGE_ADDR :: int where "SH1106_SET_PAGE_ADDR = 0xB0"
definition SH1106_SET_LOW_COL :: int where "SH1106_SET_LOW_COL = 0x00"
definition SH1106_SET_HIGH_COL :: int where "SH1106_SET_HIGH_COL = 0x10"

section \<open>The driver object\<close>

text \<open>
  \<^verbatim>\<open>SH1106_I2C\<close> and \<^verbatim>\<open>CustomSSD1306\<close> have the same fields (their \<^verbatim>\<open>__init__\<close> bodies
  assign the same seven attributes), so one record serves both. \<open>buffer\<close> is the
  \<^verbatim>\<open>bytearray\<close> shared with the \<^verbatim>\<open>framebuf.FrameBuffer\<close> base class.
\<close>

record oled =
  i2c :: i2c_bus
  addr :: int
  external_vcc :: bool
  width :: int
  height :: int
  pages :: int
  buffer :: "byte list"

subsection \<open>\<^verbatim>\<open>write_cmd\<close> and \<^verbatim>\<open>write_data\<close> (identical in both classes)\<close>

text \<open>\<^verbatim>\<open>self.i2c.writeto(self.addr, bytearray([0x80, cmd]))\<close>\<close>

definition write_cmd :: "oled \<Rightarrow> int \<Rightarrow> oled outcome" where
  "write_cmd d cmd =
     (case bytearray_of [0x80, cmd] of
        None \<Rightarrow> (Some ValueError, d)
      | Some data \<Rightarrow>
          (let r = writeto (i2c d) (addr d) data in (fst r, d\<lparr>i2c := snd r\<rparr>)))"

definition chunk_size :: nat where
  "chunk_size = 32"

text \<open>
  \<^verbatim>\<open>for i in range(0, len(buf), chunk_size)\<close>: the loop variable is never negative, so
  the slice \<^verbatim>\<open>buf[i:i+chunk_size]\<close> is \<open>take chunk_size (drop i buf)\<close>; the slice is a
  copy, and \<^verbatim>\<open>bytearray([0x40]) + chunk\<close> is a fresh object.
\<close>

function write_data_from :: "oled \<Rightarrow> byte list \<Rightarrow> nat \<Rightarrow> oled outcome" where
  "write_data_from d buf i =
     (if i < length buf then
        (let chunk = take chunk_size (drop i buf);
             data = 0x40 # chunk;
             r = writeto (i2c d) (addr d) data
         in case fst r of
              Some e \<Rightarrow> (Some e, d\<lparr>i2c := snd r\<rparr>)
            | None \<Rightarrow> write_data_from (d\<lparr>i2c := snd r\<rparr>) buf (i + chunk_size))
      else (None, d))"
  by pat_completeness auto
termination
  by (relation "measure (\<lambda>(d, buf, i). length buf - i)") (auto simp: chunk_size_def)

declare write_data_from.simps [simp del]

definition write_data :: "oled \<Rightarrow> byte list \<Rightarrow> oled outcome" where
  "write_data d buf = write_data_from d buf 0"

subsection \<open>\<^verbatim>\<open>framebuf.FrameBuffer\<close>\<close>

text \<open>
  Modelled from the spec: \<^verbatim>\<open>fill\<close> of the MicroPython built-in \<^verbatim>\<open>framebuf.FrameBuffer\<close>,
  which is not part of the repository. Section 4.1: "\<^verbatim>\<open>fill(value: 0|1)\<close>: sets every byte to
  \<^verbatim>\<open>0x00\<close> or \<^verbatim>\<open>0xFF\<close>. No error condition." It writes through to the shared \<open>buffer\<close>.
\<close>

definition fill :: "oled \<Rightarrow> int \<Rightarrow> oled" where
  "fill d c = d\<lparr>buffer := replicate (length (buffer d)) (if c = 0 then 0x00 else 0xFF)\<rparr>"

text \<open>
  Modelled from the spec: the constructor of \<^verbatim>\<open>framebuf.FrameBuffer\<close>, the base class of both
  drivers, a MicroPython built-in that is not part of the repository. Section 3: the width
  and the height are positive integers, and pixel \<open>(x, y)\<close>, valid iff \<open>0 \<le> x < width\<close>
  and \<open>0 \<le> y < height\<close>, lives in the byte of index \<open>(y // 8) * width + x\<close> of the
  buffer. The constructor is given the buffer (here its length \<open>n\<close>), the width and the
  height, and accepts them when the dimensions are positive and the byte of the last
  pixel \<open>(width - 1, height - 1)\<close>, hence of every pixel, is in the buffer; otherwise
  construction fails with the \<open>InvalidDimension\<close> of section 7.
\<close>

definition FrameBuffer_new :: "nat \<Rightarrow> int \<Rightarrow> int \<Rightarrow> error option" where
  "FrameBuffer_new n w h =
     (if 1 \<le> w \<and> 1 \<le> h \<and> ((h - 1) div 8) * w + (w - 1) < int n
      then None else Some InvalidDimension)"

subsection \<open>\<^verbatim>\<open>SH1106_I2C\<close> (sh1106.py)\<close>

text \<open>The list \<^verbatim>\<open>init_commands\<close> of \<^verbatim>\<open>init_display\<close>, lines 57-73.\<close>

definition sh1106_init_commands :: "oled \<Rightarrow> int list" where
  "sh1106_init_commands d =
     [SET_DISP OR 0x00,
      SET_DISP_CLK_DIV, 0x80,
      SET_MUX_RATIO, height d - 1,
      SET_DISP_OFFSET, 0x00,
      SET_DISP_START_LINE OR 0x00,
      SET_CHARGE_PUMP, (if external_vcc d then 0x10 else 0x14),
      SET_SEG_REMAP OR 0x01,
      SET_COM_OUT_DIR OR 0x08,
      SET_COM_PIN_CFG, 0x12,
      SET_CONTRAST, 0x80,
      SET_PRECHARGE, (if external_vcc d then 0x22 else 0xF1),
      SET_VCOM_DESEL, 0x40,
      SET_ENTIRE_ON,
      SET_NORM_INV,
      SET_DISP OR 0x01]"

text \<open>\<^verbatim>\<open>for cmd in init_commands: self.write_cmd(cmd); time.sleep_ms(1)\<close>; the sleep has no
  effect on the state.\<close>

fun write_cmds :: "oled \<Rightarrow> int list \<Rightarrow> oled outcome" where
  "write_cmds d [] = (None, d)"
| "write_cmds d (cmd # rest) = andthen (write_cmd d cmd) (\<lambda>d. write_cmds d rest)"

text \<open>The body of the loop of \<^verbatim>\<open>show\<close>, lines 85-97.\<close>

definition sh1106_show_page :: "oled \<Rightarrow> int \<Rightarrow> oled outcome" where
  "sh1106_show_page d page =
     andthen (write_cmd d (SH1106_SET_PAGE_ADDR OR page)) (\<lambda>d.
     let col_offset = (if width d = 128 then 2 else 0) in
     andthen (write_cmd d (SH1106_SET_LOW_COL OR (col_offset AND 0x0F))) (\<lambda>d.
     andthen (write_cmd d (SH1106_SET_HIGH_COL OR (drop_bit 4 col_offset))) (\<lambda>d.
     let start = page * width d;
         stop = start + width d;
         page_data = py_slice (buffer d) start stop
     in write_data d page_data)))"

fun sh1106_show_loop :: "oled \<Rightarrow> int list \<Rightarrow> oled outcome" where
  "sh1106_show_loop d [] = (None, d)"
| "sh1106_show_loop d (page # rest) =
     andthen (sh1106_show_page d page) (\<lambda>d. sh1106_show_loop d rest)"

definition sh1106_show :: "oled \<Rightarrow> oled outcome" where
  "sh1106_show d = sh1106_show_loop d (py_range (pages d))"

definition sh1106_init_display :: "oled \<Rightarrow> oled outcome" where
  "sh1106_init_display d =
     andthen (write_cmds d (sh1106_init_commands d)) (\<lambda>d. sh1106_show (fill d 0))"

definition sh1106_poweroff :: "oled \<Rightarrow> oled outcome" where
  "sh1106_poweroff d = write_cmd d (SET_DISP OR 0x00)"

definition sh1106_poweron :: "oled \<Rightarrow> oled outcome" where
  "sh1106_poweron d = write_cmd d (SET_DISP OR 0x01)"

definition sh1106_contrast :: "oled \<Rightarrow> int \<Rightarrow> oled outcome" where
  "sh1106_contrast d contrast =
     andthen (write_cmd d SET_CONTRAST) (\<lambda>d. write_cmd d contrast)"

definition sh1106_invert :: "oled \<Rightarrow> int \<Rightarrow> oled outcome" where
  "sh1106_invert d invert = write_cmd d (SET_NORM_INV OR (invert AND 1))"

definition sh1106_rotate :: "oled \<Rightarrow> bool \<Rightarrow> oled outcome" where
  "sh1106_rotate d rotate_flag =
     (if rotate_flag then
        andthen (write_cmd d SET_COM_OUT_DIR) (\<lambda>d. write_cmd d SET_SEG_REMAP)
      else
        andthen (write_cmd d (SET_COM_OUT_DIR OR 0x08)) (\<lambda>d. write_cmd d (SET_SEG_REMAP OR 0x01)))"

text \<open>
  \<^verbatim>\<open>__init__\<close>, lines 32-41. \<^verbatim>\<open>bytearray(n)\<close> raises \<^verbatim>\<open>ValueError\<close> for a negative \<open>n\<close>.
  The base-class constructor \<^verbatim>\<open>framebuf.FrameBuffer.__init__\<close> is the parameter \<open>fb_new\<close>,
  given the buffer length, the width and the height, which returns the exception it
  raises, if any; \<open>FrameBuffer_new\<close> above is the constructor the drivers run with. An
  exception raised in the constructor leaves no object.
\<close>

definition SH1106_I2C ::
  "(nat \<Rightarrow> int \<Rightarrow> int \<Rightarrow> error option) \<Rightarrow> int \<Rightarrow> int \<Rightarrow> i2c_bus \<Rightarrow> int \<Rightarrow> bool \<Rightarrow> error + oled" where
  "SH1106_I2C fb_new w h bus a ext =
     (let pgs = h div 8; n = pgs * w in
      if n < 0 then Inl ValueError
      else
        let d = \<lparr>i2c = bus, addr = a, external_vcc = ext, width = w, height = h,
                 pages = pgs, buffer = replicate (nat n) 0\<rparr>
        in case fb_new (length (buffer d)) w h of
             Some e \<Rightarrow> Inl e
           | None \<Rightarrow>
               (case sh1106_init_display d of
                  (Some e, _) \<Rightarrow> Inl e
                | (None, d') \<Rightarrow> Inr d'))"

subsection \<open>\<^verbatim>\<open>CustomSSD1306\<close> (ssd1306.py)\<close>

text \<open>
  The \<^verbatim>\<open>if\<close>/\<^verbatim>\<open>elif\<close> chain of \<^verbatim>\<open>init_display\<close>, lines 97-119, which assigns the locals
  \<^verbatim>\<open>com_pins\<close> and \<^verbatim>\<open>contrast\<close> (the \<^verbatim>\<open>print\<close> calls write to the console only).
\<close>

definition ssd1306_com_pins_contrast :: "int \<Rightarrow> int \<Rightarrow> bool \<Rightarrow> int \<times> int" where
  "ssd1306_com_pins_contrast w h ext =
     (if w = 128 \<and> h = 64 then (0x12, if \<not> ext then 0xCF else 0x9F)
      else if w = 128 \<and> h = 32 then (0x02, 0x8F)
      else if w = 96 \<and> h = 16 then (0x02, if \<not> ext then 0xAF else 0x10)
      else if w = 64 \<and> h = 32 then (0x12, if \<not> ext then 0xCF else 0x10)
      else (0x02, 0x8F))"

text \<open>\<^verbatim>\<open>show\<close>, lines 155-168.\<close>

definition ssd1306_show :: "oled \<Rightarrow> oled outcome" where
  "ssd1306_show d =
     block
      [\<lambda>d. write_cmd d SET_COL_ADDR,
       \<lambda>d. write_cmd d 0,
       \<lambda>d. write_cmd d (width d - 1),
       \<lambda>d. write_cmd d SET_PAGE_ADDR,
       \<lambda>d. write_cmd d 0,
       \<lambda>d. write_cmd d (pages d - 1),
       \<lambda>d. write_data d (buffer d)] d"

text \<open>\<^verbatim>\<open>init_display\<close>, lines 56-153, statement by statement.\<close>

definition ssd1306_init_display :: "oled \<Rightarrow> oled outcome" where
  "ssd1306_init_display d =
     block
      [\<lambda>d. write_cmd d (SET_DISP OR 0x00),
       \<lambda>d. write_cmd d SET_DISP_CLK_DIV,
       \<lambda>d. write_cmd d 0x80,
       \<lambda>d. write_cmd d SET_MUX_RATIO,
       \<lambda>d. write_cmd d (height d - 1),
       \<lambda>d. write_cmd d SET_DISP_OFFSET,
       \<lambda>d. write_cmd d 0x0,
       \<lambda>d. write_cmd d (SET_DISP_START_LINE OR 0x0),
       \<lambda>d. write_cmd d SET_CHARGE_PUMP,
       \<lambda>d. if external_vcc d then write_cmd d 0x10 else write_cmd d 0x14,
       \<lambda>d. write_cmd d SET_MEM_ADDR,
       \<lambda>d. write_cmd d 0x00,
       \<lambda>d. write_cmd d (SET_SEG_REMAP OR 0x1),
       \<lambda>d. write_cmd d (SET_COM_OUT_DIR OR 0x08),
       \<lambda>d. write_cmd d SET_COM_PIN_CFG,
       \<lambda>d. write_cmd d (fst (ssd1306_com_pins_contrast (width d) (height d) (external_vcc d))),
       \<lambda>d. write_cmd d SET_CONTRAST,
       \<lambda>d. write_cmd d (snd (ssd1306_com_pins_contrast (width d) (height d) (external_vcc d))),
       \<lambda>d. write_cmd d SET_PRECHARGE,
       \<lambda>d. if external_vcc d then write_cmd d 0x22 else write_cmd d 0xF1,
       \<lambda>d. write_cmd d SET_VCOM_DESEL,
       \<lambda>d. write_cmd d 0x40,
       \<lambda>d. write_cmd d SET_ENTIRE_ON,
       \<lambda>d. write_cmd d SET_NORM_INV,
       \<lambda>d. write_cmd d 0x2E,
       \<lambda>d. write_cmd d (SET_DISP OR 0x01),
       \<lambda>d. (None, fill d 0),
       ssd1306_show] d"

definition ssd1306_poweroff :: "oled \<Rightarrow> oled outcome" where
  "ssd1306_poweroff d = write_cmd d (SET_DISP OR 0x00)"

definition ssd1306_poweron :: "oled \<Rightarrow> oled outcome" where
  "ssd1306_poweron d = write_cmd d (SET_DISP OR 0x01)"

definition ssd1306_contrast :: "oled \<Rightarrow> int \<Rightarrow> oled outcome" where
  "ssd1306_contrast d contrast =
     andthen (write_cmd d SET_CONTRAST) (\<lambda>d. write_cmd d contrast)"

definition ssd1306_invert :: "oled \<Rightarrow> int \<Rightarrow> oled outcome" where
  "ssd1306_invert d invert = write_cmd d (SET_NORM_INV OR (invert AND 1))"

text \<open>\<^verbatim>\<open>__init__\<close>, lines 30-41; \<open>fb_new\<close> as for \<open>SH1106_I2C\<close>.\<close>

definition CustomSSD1306 ::
  "(nat \<Rightarrow> int \<Rightarrow> int \<Rightarrow> error option) \<Rightarrow> int \<Rightarrow> int \<Rightarrow> i2c_bus \<Rightarrow> int \<Rightarrow> bool \<Rightarrow> error + oled" where
  "CustomSSD1306 fb_new w h bus a ext =
     (let pgs = h div 8; n = pgs * w in
      if n < 0 then Inl ValueError
      else
        let d = \<lparr>i2c = bus, addr = a, external_vcc = ext, width = w, height = h,
                 pages = pgs, buffer = replicate (nat n) 0\<rparr>
        in case fb_new (length (buffer d)) w h of
             Some e \<Rightarrow> Inl e
           | None \<Rightarrow>
               (case ssd1306_init_display d of
                  (Some e, _) \<Rightarrow> Inl e
                | (None, d') \<Rightarrow> Inr d'))"

section \<open>Command sequences and their image on the bus\<close>

text \<open>
  The vocabulary of the specification (sections 3 and 4.4): a \<open>CommandSequence\<close> is an
  ordered list of \<open>Command\<close> and \<open>DataRun\<close> elements. \<open>write_elements\<close> issues a sequence
  through the drivers' own \<^verbatim>\<open>write_cmd\<close> and \<^verbatim>\<open>write_data\<close>, in order, stopping at the
  first exception.
\<close>

datatype element = Command int | DataRun "byte list"

fun write_elements :: "element list \<Rightarrow> oled \<Rightarrow> oled outcome" where
  "write_elements [] d = (None, d)"
| "write_elements (Command c # es) d = andthen (write_cmd d c) (write_elements es)"
| "write_elements (DataRun bs # es) d = andthen (write_data d bs) (write_elements es)"

text \<open>The successive slices \<^verbatim>\<open>buf[i:i+chunk_size]\<close>, \<^verbatim>\<open>buf[i+chunk_size:i+2*chunk_size]\<close>,
  ... of a byte sequence.\<close>

function chunks_from :: "byte list \<Rightarrow> nat \<Rightarrow> byte list list" where
  "chunks_from buf i =
     (if i < length buf
      then take chunk_size (drop i buf) # chunks_from buf (i + chunk_size)
      else [])"
  by pat_completeness auto
termination
  by (relation "measure (\<lambda>(buf, i). length buf - i)") (auto simp: chunk_size_def)

declare chunks_from.simps [simp del]

text \<open>A bus transaction is the target address and the payload. A command is framed as
  the control byte \<open>0x80\<close> and the command byte, a chunk of data as \<open>0x40\<close> and the chunk.\<close>

definition cmd_frame :: "int \<Rightarrow> int \<Rightarrow> int \<times> byte list" where
  "cmd_frame a c = (a, [0x80, word_of_int c])"

definition data_frames :: "int \<Rightarrow> byte list \<Rightarrow> (int \<times> byte list) list" where
  "data_frames a buf = map (\<lambda>chunk. (a, 0x40 # chunk)) (chunks_from buf 0)"

fun frames :: "int \<Rightarrow> element list \<Rightarrow> (int \<times> byte list) list" where
  "frames a [] = []"
| "frames a (Command c # es) = cmd_frame a c # frames a es"
| "frames a (DataRun bs # es) = data_frames a bs @ frames a es"

text \<open>The transactions that reached the bus between two states of a driver object.\<close>

definition emitted :: "oled \<Rightarrow> oled \<Rightarrow> (int \<times> byte list) list" where
  "emitted d d' = drop (length (sent (i2c d))) (sent (i2c d'))"

text \<open>The command bytes among a list of transactions: the second byte of every two-byte
  payload that starts with the control byte \<open>0x80\<close>.\<close>

fun command_byte :: "int \<times> byte list \<Rightarrow> byte list" where
  "command_byte (a, [c0, c]) = (if c0 = 0x80 then [c] else [])"
| "command_byte (a, payload) = []"

definition command_bytes :: "(int \<times> byte list) list \<Rightarrow> byte list" where
  "command_bytes ws = concat (map command_byte ws)"

text \<open>Does a sequence hold only commands that fit a byte?\<close>

fun byte_commands :: "element list \<Rightarrow> bool" where
  "byte_commands [] = True"
| "byte_commands (Command c # es) = (0 \<le> c \<and> c < 256 \<and> byte_commands es)"
| "byte_commands (DataRun bs # es) = byte_commands es"

subsection \<open>The update sequences of section 4.3\<close>

text \<open>Section 4.2: "For the paged family, \<open>column_offset = 2\<close> when \<open>width == 128\<close>, else \<open>0\<close>."\<close>

definition column_offset :: "int \<Rightarrow> int" where
  "column_offset w = (if w = 128 then 2 else 0)"

text \<open>\<open>PagedWithColumnOffset\<close>: the block of page \<open>p\<close> is the page-select command, the two
  column commands, and one \<open>DataRun\<close> of the \<open>width\<close> bytes of the buffer at offset
  \<open>p * width\<close>; the sequence is the blocks of the pages \<open>0 .. pages - 1\<close>, in order.\<close>

definition page_block :: "oled \<Rightarrow> int \<Rightarrow> element list" where
  "page_block d p =
     [Command (0xB0 OR p),
      Command (0x00 OR (column_offset (width d) AND 0x0F)),
      Command (0x10 OR drop_bit 4 (column_offset (width d))),
      DataRun (take (nat (width d)) (drop (nat (p * width d)) (buffer d)))]"

definition paged_update_sequence :: "oled \<Rightarrow> element list" where
  "paged_update_sequence d = concat (map (page_block d) (py_range (pages d)))"

text \<open>\<open>HorizontalAutoIncrement\<close>: column range, page range, one \<open>DataRun\<close> of the whole
  buffer.\<close>

definition auto_update_sequence :: "oled \<Rightarrow> element list" where
  "auto_update_sequence d =
     [Command 0x21, Command 0, Command (width d - 1),
      Command 0x22, Command 0, Command (pages d - 1),
      DataRun (buffer d)]"

text \<open>The elements the body of the loop of \<^verbatim>\<open>SH1106_I2C.show\<close> issues for one page,
  with the slice as Python computes it.\<close>

definition sh1106_page_elements :: "oled \<Rightarrow> int \<Rightarrow> element list" where
  "sh1106_page_elements d page =
     [Command (0xB0 OR page),
      Command (0x00 OR ((if width d = 128 then 2 else 0) AND 0x0F)),
      Command (0x10 OR drop_bit 4 (if width d = 128 then 2 else 0)),
      DataRun (py_slice (buffer d) (page * width d) (page * width d + width d))]"

text \<open>The commands \<^verbatim>\<open>CustomSSD1306.init_display\<close> writes before it clears the buffer, in
  the order of its statements.\<close>

definition ssd1306_init_commands :: "oled \<Rightarrow> int list" where
  "ssd1306_init_commands d =
     [0xAE, 0xD5, 0x80, 0xA8, height d - 1, 0xD3, 0x00, 0x40,
      0x8D, (if external_vcc d then 0x10 else 0x14),
      0x20, 0x00, 0xA1, 0xC8,
      0xDA, fst (ssd1306_com_pins_contrast (width d) (height d) (external_vcc d)),
      0x81, snd (ssd1306_com_pins_contrast (width d) (height d) (external_vcc d)),
      0xD9, (if external_vcc d then 0x22 else 0xF1),
      0xDB, 0x40, 0xA4, 0xA6, 0x2E, 0xAF]"

section \<open>The operations of the public contract\<close>

text \<open>Section 6 lists the controller families and the exposed operations. \<open>perform\<close>
  dispatches an operation to the method of the family's class; \<^verbatim>\<open>CustomSSD1306\<close> defines
  no \<^verbatim>\<open>rotate\<close> (nor does its base class), so the call raises \<^verbatim>\<open>AttributeError\<close>.\<close>

datatype family = Paged | AutoIncrement

datatype operation =
  Init | Show | PowerOn | PowerOff | SetContrast int | Invert int | Rotate bool

fun perform :: "family \<Rightarrow> operation \<Rightarrow> oled \<Rightarrow> oled outcome" where
  "perform Paged Init d = sh1106_init_display d"
| "perform Paged Show d = sh1106_show d"
| "perform Paged PowerOn d = sh1106_poweron d"
| "perform Paged PowerOff d = sh1106_poweroff d"
| "perform Paged (SetContrast v) d = sh1106_contrast d v"
| "perform Paged (Invert v) d = sh1106_invert d v"
| "perform Paged (Rotate flag) d = sh1106_rotate d flag"
| "perform AutoIncrement Init d = ssd1306_init_display d"
| "perform AutoIncrement Show d = ssd1306_show d"
| "perform AutoIncrement PowerOn d = ssd1306_poweron d"
| "perform AutoIncrement PowerOff d = ssd1306_poweroff d"
| "perform AutoIncrement (SetContrast v) d = ssd1306_contrast d v"
| "perform AutoIncrement (Invert v) d = ssd1306_invert d v"
| "perform AutoIncrement (Rotate flag) d = (Some AttributeError, d)"

text \<open>Does the class of the family define the method?\<close>

fun supported :: "family \<Rightarrow> operation \<Rightarrow> bool" where
  "supported AutoIncrement (Rotate flag) = False"
| "supported fam op = True"

text \<open>The command sequence of each operation (section 4.3), for an object in state \<open>d\<close>.\<close>

fun update_sequence :: "family \<Rightarrow> oled \<Rightarrow> element list" where
  "update_sequence Paged d = concat (map (sh1106_page_elements d) (py_range (pages d)))"
| "update_sequence AutoIncrement d = auto_update_sequence d"

fun command_sequence :: "family \<Rightarrow> operation \<Rightarrow> oled \<Rightarrow> element list" where
  "command_sequence Paged Init d =
     map Command (sh1106_init_commands d) @ update_sequence Paged (fill d 0)"
| "command_sequence AutoIncrement Init d =
     map Command (ssd1306_init_commands d) @ update_sequence AutoIncrement (fill d 0)"
| "command_sequence fam Show d = update_sequence fam d"
| "command_sequence fam PowerOn d = [Command 0xAF]"
| "command_sequence fam PowerOff d = [Command 0xAE]"
| "command_sequence fam (SetContrast v) d = [Command 0x81, Command v]"
| "command_sequence fam (Invert v) d = [Command (0xA6 OR (v AND 1))]"
| "command_sequence Paged (Rotate flag) d =
     (if flag then [Command 0xC0, Command 0xA0] else [Command 0xC8, Command 0xA1])"
| "command_sequence AutoIncrement (Rotate flag) d = []"

section \<open>Proof vocabulary\<close>

text \<open>\<open>sends d ws\<close> is the driver object after the transactions \<open>ws\<close> went through.
  \<open>issues d fs r\<close> says that the outcome \<open>r\<close> of a method started in \<open>d\<close> changed nothing
  but the bus, that what reached the bus is a prefix of \<open>fs\<close>, and all of \<open>fs\<close> when the
  method returned.\<close>

definition sends :: "oled \<Rightarrow> (int \<times> byte list) list \<Rightarrow> oled" where
  "sends d ws =
     d\<lparr>i2c := (i2c d)\<lparr>sent := sent (i2c d) @ ws, attempts := attempts (i2c d) + length ws\<rparr>\<rparr>"

definition issues :: "oled \<Rightarrow> (int \<times> byte list) list \<Rightarrow> oled outcome \<Rightarrow> bool" where
  "issues d fs r \<longleftrightarrow>
     (\<exists>b ws. snd r = d\<lparr>i2c := b\<rparr> \<and> sent b = sent (i2c d) @ ws \<and> prefix ws fs \<and>
        (fst r = None \<longrightarrow> ws = fs))"

text \<open>\<open>logs d fs r\<close>: between \<open>d\<close> and the outcome \<open>r\<close> the bus only grew, by a prefix of
  the transactions \<open>fs\<close>, and by all of them when the method returned.\<close>

definition logs :: "oled \<Rightarrow> (int \<times> byte list) list \<Rightarrow> oled outcome \<Rightarrow> bool" where
  "logs d fs r \<longleftrightarrow>
     sent (i2c (snd r)) = sent (i2c d) @ emitted d (snd r) \<and>
     prefix (emitted d (snd r)) fs \<and>
     (if fst r = None then emitted d (snd r) = fs else True)"

text \<open>The command values of a sequence, in order.\<close>

fun commands_of :: "element list \<Rightarrow> int list" where
  "commands_of [] = []"
| "commands_of (Command c # es) = c # commands_of es"
| "commands_of (DataRun bs # es) = commands_of es"

text \<open>The object \<^verbatim>\<open>__init__\<close> has assembled when it calls \<^verbatim>\<open>init_display\<close>.\<close>

definition fresh :: "int \<Rightarrow> int \<Rightarrow> i2c_bus \<Rightarrow> int \<Rightarrow> bool \<Rightarrow> oled" where
  "fresh w h bus a ext =
     \<lparr>i2c = bus, addr = a, external_vcc = ext, width = w, height = h,
      pages = h div 8, buffer = replicate (nat (h div 8 * w)) 0\<rparr>"

section \<open>Concrete objects\<close>

text \<open>A bus on which no transaction fails, with nothing sent yet, and the 128x64 paged
  panel after \<^verbatim>\<open>fill(1)\<close>: eight pages, every byte of the buffer \<open>0xFF\<close>. Then a bus
  whose second transaction fails (the first and all later ones go through), and the same
  panel on that bus.\<close>

definition idle_bus :: i2c_bus where
  "idle_bus = \<lparr>sent = [], attempts = 0, fails = (\<lambda>k. False)\<rparr>"

definition panel_128x64 :: oled where
  "panel_128x64 =
     \<lparr>i2c = idle_bus, addr = 0x3C, external_vcc = False, width = 128, height = 64,
      pages = 8, buffer = replicate 1024 0xFF\<rparr>"

definition second_write_fails :: i2c_bus where
  "second_write_fails = \<lparr>sent = [], attempts = 0, fails = (\<lambda>k. k = 1)\<rparr>"

definition panel_on_failing_bus :: oled where
  "panel_on_failing_bus = panel_128x64\<lparr>i2c := second_write_fails\<rparr>"

section \<open>Sequencing and the bus\<close>

lemmas command_defs =
  SET_CONTRAST_def SET_ENTIRE_ON_def SET_NORM_INV_def SET_DISP_def SET_MEM_ADDR_def
  SET_COL_ADDR_def SET_PAGE_ADDR_def SET_DISP_START_LINE_def SET_SEG_REMAP_def
  SET_MUX_RATIO_def SET_COM_OUT_DIR_def SET_DISP_OFFSET_def SET_COM_PIN_CFG_def
  SET_DISP_CLK_DIV_def SET_PRECHARGE_def SET_VCOM_DESEL_def SET_CHARGE_PUMP_def
  SH1106_SET_PAGE_ADDR_def SH1106_SET_LOW_COL_def SH1106_SET_HIGH_COL_def

lemma andthen_None [simp]: "andthen (None, s) f = f s"
  by (simp add: andthen_def)

lemma andthen_Some [simp]: "andthen (Some e, s) f = (Some e, s)"
  by (simp add: andthen_def)

lemma andthen_fst_None: "fst r = None \<Longrightarrow> andthen r f = f (snd r)"
  by (simp add: andthen_def)

lemma andthen_fst_Some: "fst r = Some e \<Longrightarrow> andthen r f = r"
  by (simp add: andthen_def)

lemma sends_Nil [simp]: "sends d [] = d"
  by (simp add: sends_def)

lemma sends_sends [simp]: "sends (sends d ws) vs = sends d (ws @ vs)"
  by (simp add: sends_def)

lemma sends_fields [simp]:
  "addr (sends d ws) = addr d" "width (sends d ws) = width d" "height (sends d ws) = height d"
  "pages (sends d ws) = pages d" "buffer (sends d ws) = buffer d"
  "external_vcc (sends d ws) = external_vcc d"
  "fails (i2c (sends d ws)) = fails (i2c d)"
  "sent (i2c (sends d ws)) = sent (i2c d) @ ws"
  by (simp_all add: sends_def)

lemma emitted_sends [simp]: "emitted d (sends d ws) = ws"
  by (simp add: emitted_def)

lemma write_cmd_ok:
  assumes "\<not> fails (i2c d) (attempts (i2c d))" "0 \<le> c" "c < 256"
  shows "write_cmd d c = (None, sends d [cmd_frame (addr d) c])"
  using assms by (simp add: write_cmd_def bytearray_of_def writeto_def sends_def cmd_frame_def)

lemma write_data_from_ok:
  "\<forall>k. \<not> fails (i2c d) k \<Longrightarrow>
   write_data_from d buf i = (None, sends d (map (\<lambda>chunk. (addr d, 0x40 # chunk)) (chunks_from buf i)))"
proof (induction d buf i rule: write_data_from.induct)
  case (1 d buf i)
  show ?case
  proof (cases "i < length buf")
    case False
    then show ?thesis by (simp add: write_data_from.simps [of d buf i] chunks_from.simps [of buf i])
  next
    case True
    let ?data = "0x40 # take chunk_size (drop i buf)"
    let ?r = "writeto (i2c d) (addr d) ?data"
    have r: "?r = (None, (i2c d)\<lparr>sent := sent (i2c d) @ [(addr d, ?data)], attempts := Suc (attempts (i2c d))\<rparr>)"
      using "1.prems" by (simp add: writeto_def)
    have d1: "d\<lparr>i2c := snd ?r\<rparr> = sends d [(addr d, ?data)]"
      by (simp add: r sends_def)
    have "write_data_from d buf i = write_data_from (d\<lparr>i2c := snd ?r\<rparr>) buf (i + chunk_size)"
      using True by (subst write_data_from.simps) (simp add: r Let_def)
    also have "\<dots> = (None, sends (d\<lparr>i2c := snd ?r\<rparr>)
        (map (\<lambda>chunk. (addr (d\<lparr>i2c := snd ?r\<rparr>), 0x40 # chunk)) (chunks_from buf (i + chunk_size))))"
    proof -
      have "fst ?r = None" by (simp add: r)
      moreover have "\<forall>k. \<not> fails (i2c (d\<lparr>i2c := snd ?r\<rparr>)) k"
        using "1.prems" by (simp add: r)
      ultimately show ?thesis
        using "1.IH" [OF True refl refl refl] by blast
    qed
    also have "\<dots> = (None, sends d (map (\<lambda>chunk. (addr d, 0x40 # chunk)) (chunks_from buf i)))"
      using True by (simp add: d1 chunks_from.simps [of buf i])
    finally show ?thesis .
  qed
qed

lemma write_data_ok:
  "\<forall>k. \<not> fails (i2c d) k \<Longrightarrow> write_data d buf = (None, sends d (data_frames (addr d) buf))"
  by (simp add: write_data_def data_frames_def write_data_from_ok)

lemma write_elements_ok:
  "\<forall>k. \<not> fails (i2c d) k \<Longrightarrow> byte_commands es \<Longrightarrow>
   write_elements es d = (None, sends d (frames (addr d) es))"
proof (induction es arbitrary: d)
  case Nil
  then show ?case by simp
next
  case (Cons e es)
  show ?case
  proof (cases e)
    case (Command c)
    with Cons.prems have "write_cmd d c = (None, sends d [cmd_frame (addr d) c])"
      by (intro write_cmd_ok) simp_all
    with Cons Command show ?thesis by simp
  next
    case (DataRun bs)
    with Cons show ?thesis by (simp add: write_data_ok)
  qed
qed

subsection \<open>What reaches the bus, failures included\<close>

lemma issuesI:
  "snd r = d\<lparr>i2c := b\<rparr> \<Longrightarrow> sent b = sent (i2c d) @ ws \<Longrightarrow> prefix ws fs \<Longrightarrow>
   (fst r = None \<Longrightarrow> ws = fs) \<Longrightarrow> issues d fs r"
  by (auto simp: issues_def)

lemma issues_fields:
  assumes "issues d fs r"
  shows "addr (snd r) = addr d" "width (snd r) = width d" "height (snd r) = height d"
    "pages (snd r) = pages d" "buffer (snd r) = buffer d"
    "external_vcc (snd r) = external_vcc d"
proof -
  from assms obtain b where "snd r = d\<lparr>i2c := b\<rparr>"
    by (auto simp: issues_def)
  then show "addr (snd r) = addr d" "width (snd r) = width d" "height (snd r) = height d"
    "pages (snd r) = pages d" "buffer (snd r) = buffer d"
    "external_vcc (snd r) = external_vcc d"
    by simp_all
qed

lemma issues_emitted:
  assumes "issues d fs r"
  shows "sent (i2c (snd r)) = sent (i2c d) @ emitted d (snd r)"
    and "prefix (emitted d (snd r)) fs"
    and "fst r = None \<Longrightarrow> emitted d (snd r) = fs"
proof -
  from assms obtain b ws where *: "snd r = d\<lparr>i2c := b\<rparr>" "sent b = sent (i2c d) @ ws"
    "prefix ws fs" "fst r = None \<longrightarrow> ws = fs"
    by (auto simp: issues_def)
  then have "emitted d (snd r) = ws" by (simp add: emitted_def)
  with * show "sent (i2c (snd r)) = sent (i2c d) @ emitted d (snd r)"
    and "prefix (emitted d (snd r)) fs"
    and "fst r = None \<Longrightarrow> emitted d (snd r) = fs"
    by simp_all
qed

lemma issues_Nil: "issues d [] (None, d)"
  by (rule issuesI [where b = "i2c d" and ws = "[]"]) simp_all

lemma issues_andthen:
  assumes r: "issues d fs r"
    and f: "fst r = None \<Longrightarrow> issues (snd r) gs (f (snd r))"
  shows "issues d (fs @ gs) (andthen r f)"
proof (cases "fst r")
  case (Some e)
  from r obtain b ws where *: "snd r = d\<lparr>i2c := b\<rparr>" "sent b = sent (i2c d) @ ws" "prefix ws fs"
    by (auto simp: issues_def)
  from Some have "andthen r f = r" by (rule andthen_fst_Some)
  with * Some show ?thesis
    by (intro issuesI [where b = b and ws = ws]) (simp_all add: prefix_prefix)
next
  case None
  from r None obtain b where b: "snd r = d\<lparr>i2c := b\<rparr>" "sent b = sent (i2c d) @ fs"
    by (auto simp: issues_def)
  from f [OF None] obtain b' ws' where b': "snd (f (snd r)) = (snd r)\<lparr>i2c := b'\<rparr>"
    "sent b' = sent (i2c (snd r)) @ ws'" "prefix ws' gs" "fst (f (snd r)) = None \<longrightarrow> ws' = gs"
    by (auto simp: issues_def)
  from None have "andthen r f = f (snd r)" by (rule andthen_fst_None)
  with b b' show ?thesis
    by (intro issuesI [where b = b' and ws = "fs @ ws'"]) simp_all
qed

lemma issues_write_cmd: "issues d [cmd_frame (addr d) c] (write_cmd d c)"
proof (cases "0 \<le> c \<and> c < 256")
  case False
  then have "write_cmd d c = (Some ValueError, d)"
    by (auto simp: write_cmd_def bytearray_of_def)
  then show ?thesis
    by (intro issuesI [where b = "i2c d" and ws = "[]"]) simp_all
next
  case True
  show ?thesis
  proof (cases "fails (i2c d) (attempts (i2c d))")
    case False
    with True have "write_cmd d c = (None, sends d [cmd_frame (addr d) c])"
      by (intro write_cmd_ok) simp_all
    then show ?thesis
      by (intro issuesI [where b = "i2c (sends d [cmd_frame (addr d) c])" and ws = "[cmd_frame (addr d) c]"])
        (simp_all add: sends_def)
  next
    case fails: True
    with True have "write_cmd d c = (Some OSError, d\<lparr>i2c := (i2c d)\<lparr>attempts := Suc (attempts (i2c d))\<rparr>\<rparr>)"
      by (simp add: write_cmd_def bytearray_of_def writeto_def)
    then show ?thesis
      by (intro issuesI [where b = "(i2c d)\<lparr>attempts := Suc (attempts (i2c d))\<rparr>" and ws = "[]"]) simp_all
  qed
qed

lemma issues_write_data_from:
  "issues d (map (\<lambda>chunk. (addr d, 0x40 # chunk)) (chunks_from buf i)) (write_data_from d buf i)"
proof (induction d buf i rule: write_data_from.induct)
  case (1 d buf i)
  show ?case
  proof (cases "i < length buf")
    case False
    then show ?thesis
      by (simp add: write_data_from.simps [of d buf i] chunks_from.simps [of buf i] issues_Nil)
  next
    case True
    let ?data = "0x40 # take chunk_size (drop i buf)"
    let ?r = "writeto (i2c d) (addr d) ?data"
    let ?d1 = "d\<lparr>i2c := snd ?r\<rparr>"
    let ?rest = "map (\<lambda>chunk. (addr d, 0x40 # chunk)) (chunks_from buf (i + chunk_size))"
    have fs: "map (\<lambda>chunk. (addr d, 0x40 # chunk)) (chunks_from buf i) = [(addr d, ?data)] @ ?rest"
      using True by (simp add: chunks_from.simps [of buf i])
    have step: "write_data_from d buf i =
        andthen (fst ?r, ?d1) (\<lambda>d'. write_data_from d' buf (i + chunk_size))"
      using True by (subst write_data_from.simps) (simp add: Let_def andthen_def split: option.splits)
    have first: "issues d [(addr d, ?data)] (fst ?r, ?d1)"
    proof (cases "fails (i2c d) (attempts (i2c d))")
      case True
      then show ?thesis
        by (intro issuesI [where b = "snd ?r" and ws = "[]"]) (simp_all add: writeto_def)
    next
      case False
      then show ?thesis
        by (intro issuesI [where b = "snd ?r" and ws = "[(addr d, ?data)]"]) (simp_all add: writeto_def)
    qed
    have "issues d ([(addr d, ?data)] @ ?rest)
        (andthen (fst ?r, ?d1) (\<lambda>d'. write_data_from d' buf (i + chunk_size)))"
    proof (rule issues_andthen [OF first])
      assume "fst (fst ?r, ?d1) = None"
      then have "fst ?r = None" by simp
      from "1.IH" [OF True refl refl refl this]
      show "issues (snd (fst ?r, ?d1)) ?rest (write_data_from (snd (fst ?r, ?d1)) buf (i + chunk_size))"
        by simp
    qed
    then show ?thesis by (simp only: fs step)
  qed
qed

lemma issues_write_data: "issues d (data_frames (addr d) buf) (write_data d buf)"
  by (simp add: write_data_def data_frames_def issues_write_data_from)

lemma issues_write_elements: "issues d (frames (addr d) es) (write_elements es d)"
proof (induction es arbitrary: d)
  case Nil
  show ?case by (simp add: issues_Nil)
next
  case (Cons e es)
  show ?case
  proof (cases e)
    case (Command c)
    have "issues d ([cmd_frame (addr d) c] @ frames (addr d) es)
        (andthen (write_cmd d c) (write_elements es))"
    proof (rule issues_andthen [OF issues_write_cmd])
      show "issues (snd (write_cmd d c)) (frames (addr d) es) (write_elements es (snd (write_cmd d c)))"
        using Cons.IH [of "snd (write_cmd d c)"] issues_fields(1) [OF issues_write_cmd, of d c]
        by simp
    qed
    with Command show ?thesis by simp
  next
    case (DataRun bs)
    have "issues d (data_frames (addr d) bs @ frames (addr d) es)
        (andthen (write_data d bs) (write_elements es))"
    proof (rule issues_andthen [OF issues_write_data])
      show "issues (snd (write_data d bs)) (frames (addr d) es) (write_elements es (snd (write_data d bs)))"
        using Cons.IH [of "snd (write_data d bs)"] issues_fields(1) [OF issues_write_data, of d bs]
        by simp
    qed
    with DataRun show ?thesis by simp
  qed
qed

subsection \<open>Chunks\<close>

lemma concat_chunks_from: "concat (chunks_from buf i) = drop i buf"
proof (induction buf i rule: chunks_from.induct)
  case (1 buf i)
  show ?case
  proof (cases "i < length buf")
    case True
    have "take chunk_size (drop i buf) @ drop (i + chunk_size) buf = drop i buf"
      using append_take_drop_id [of chunk_size "drop i buf"] by (simp add: add.commute)
    with True "1.IH" show ?thesis by (simp add: chunks_from.simps [of buf i])
  next
    case False
    then show ?thesis by (simp add: chunks_from.simps [of buf i])
  qed
qed

lemma length_chunks_from:
  "length (chunks_from buf i) = (length buf - i + (chunk_size - 1)) div chunk_size"
proof (induction buf i rule: chunks_from.induct)
  case (1 buf i)
  show ?case
  proof (cases "i < length buf")
    case True
    have "(length buf - i + 31) div 32 = Suc ((length buf - (i + 32) + 31) div 32)"
      using True by (cases "i + 32 \<le> length buf") (simp_all add: div_eq_dividend_iff, linarith?)
    with True "1.IH" show ?thesis
      by (simp add: chunks_from.simps [of buf i] chunk_size_def)
  next
    case False
    then show ?thesis by (simp add: chunks_from.simps [of buf i] chunk_size_def)
  qed
qed

lemma chunks_from_bounds:
  "chunk \<in> set (chunks_from buf i) \<Longrightarrow> chunk \<noteq> [] \<and> length chunk \<le> chunk_size"
proof (induction buf i rule: chunks_from.induct)
  case (1 buf i)
  show ?case
  proof (cases "i < length buf")
    case True
    with "1.prems" "1.IH" show ?thesis
      by (auto simp: chunks_from.simps [of buf i] chunk_size_def)
  next
    case False
    with "1.prems" show ?thesis by (simp add: chunks_from.simps [of buf i])
  qed
qed

section \<open>The methods as command sequences\<close>

lemma andthen_assoc: "andthen (andthen r f) g = andthen r (\<lambda>s. andthen (f s) g)"
  by (simp add: andthen_def split: option.splits)

lemma andthen_return [simp]: "andthen r (\<lambda>s. (None, s)) = r"
  by (cases r) (simp add: andthen_def split: option.splits)

lemma andthen_cong_issues:
  assumes "issues d fs r" and "\<And>b. f (d\<lparr>i2c := b\<rparr>) = g (d\<lparr>i2c := b\<rparr>)"
  shows "andthen r f = andthen r g"
proof -
  from assms(1) obtain b where "snd r = d\<lparr>i2c := b\<rparr>"
    by (auto simp: issues_def)
  with assms(2) show ?thesis
    by (simp add: andthen_def split: option.splits)
qed

lemmas andthen_write_cmd_cong = andthen_cong_issues [OF issues_write_cmd]

lemmas andthen_write_elements_cong = andthen_cong_issues [OF issues_write_elements]

lemma write_elements_append:
  "write_elements (es @ fs) d = andthen (write_elements es d) (write_elements fs)"
proof (induction es arbitrary: d)
  case Nil
  show ?case by simp
next
  case (Cons e es)
  have "write_elements (es @ fs) = (\<lambda>s. andthen (write_elements es s) (write_elements fs))"
    by (rule ext) (rule Cons.IH)
  then show ?case by (cases e) (simp_all add: andthen_assoc)
qed

lemma write_elements_fun:
  "write_elements [] = (\<lambda>d. (None, d))"
  "write_elements (Command c # es) = (\<lambda>d. andthen (write_cmd d c) (write_elements es))"
  "write_elements (DataRun bs # es) = (\<lambda>d. andthen (write_data d bs) (write_elements es))"
  by (rule ext, simp)+

lemma block_fun:
  "block [] = (\<lambda>s. (None, s))"
  "block (f # fs) = (\<lambda>s. andthen (f s) (block fs))"
  by (rule ext, simp)+

lemma write_cmds_elements: "write_cmds d cs = write_elements (map Command cs) d"
  by (induction cs arbitrary: d) simp_all

lemma sh1106_show_page_elements:
  "sh1106_show_page d page = write_elements (sh1106_page_elements d page) d"
proof -
  let ?co = "if width d = 128 then 2 else (0::int)"
  let ?data = "py_slice (buffer d) (page * width d) (page * width d + width d)"
  have "sh1106_show_page d page =
    andthen (write_cmd d (0xB0 OR page)) (\<lambda>d1.
    andthen (write_cmd d1 (0x00 OR (?co AND 0x0F))) (\<lambda>d2.
    andthen (write_cmd d2 (0x10 OR drop_bit 4 ?co)) (\<lambda>d3. write_data d3 ?data)))"
    unfolding sh1106_show_page_def Let_def command_defs
    by (rule andthen_write_cmd_cong, simp split del: if_split)+
  also have "\<dots> = write_elements (sh1106_page_elements d page) d"
    by (simp add: sh1106_page_elements_def write_elements_fun split del: if_split)
  finally show ?thesis .
qed

lemma sh1106_page_elements_bus [simp]:
  "sh1106_page_elements (d\<lparr>i2c := b\<rparr>) = sh1106_page_elements d"
  by (rule ext) (simp add: sh1106_page_elements_def)

lemma sh1106_show_loop_elements:
  "sh1106_show_loop d ps = write_elements (concat (map (sh1106_page_elements d) ps)) d"
proof (induction ps arbitrary: d)
  case Nil
  show ?case by simp
next
  case (Cons p ps)
  have "sh1106_show_loop d (p # ps) =
      andthen (write_elements (sh1106_page_elements d p) d)
        (\<lambda>d'. write_elements (concat (map (sh1106_page_elements d') ps)) d')"
    by (simp add: sh1106_show_page_elements Cons.IH)
  also have "\<dots> = andthen (write_elements (sh1106_page_elements d p) d)
        (write_elements (concat (map (sh1106_page_elements d) ps)))"
    by (rule andthen_write_elements_cong) simp
  finally show ?case by (simp add: write_elements_append)
qed

lemma sh1106_show_elements:
  "sh1106_show d = write_elements (concat (map (sh1106_page_elements d) (py_range (pages d)))) d"
  by (simp add: sh1106_show_def sh1106_show_loop_elements)

lemma ssd1306_show_elements: "ssd1306_show d = write_elements (auto_update_sequence d) d"
proof -
  have "ssd1306_show d =
    andthen (write_cmd d 0x21) (\<lambda>d1.
    andthen (write_cmd d1 0) (\<lambda>d2.
    andthen (write_cmd d2 (width d - 1)) (\<lambda>d3.
    andthen (write_cmd d3 0x22) (\<lambda>d4.
    andthen (write_cmd d4 0) (\<lambda>d5.
    andthen (write_cmd d5 (pages d - 1)) (\<lambda>d6. write_data d6 (buffer d)))))))"
    unfolding ssd1306_show_def command_defs
    apply (simp add: block_fun)
    apply (rule andthen_write_cmd_cong, simp?)+
    done
  also have "\<dots> = write_elements (auto_update_sequence d) d"
    by (simp add: auto_update_sequence_def write_elements_fun)
  finally show ?thesis .
qed

section \<open>Data frames\<close>

lemma panel_fields [simp]:
  "addr panel_128x64 = 0x3C" "width panel_128x64 = 128" "height panel_128x64 = 64"
  "pages panel_128x64 = 8" "buffer panel_128x64 = replicate 1024 0xFF"
  "external_vcc panel_128x64 = False" "fails (i2c panel_128x64) k = False"
  "sent (i2c panel_128x64) = []"
  by (simp_all add: panel_128x64_def idle_bus_def)

lemma concat_data_frames: "concat (map (\<lambda>w. tl (snd w)) (data_frames a buf)) = buf"
proof -
  have "map (\<lambda>w. tl (snd w)) (data_frames a buf) = chunks_from buf 0"
    by (simp add: data_frames_def comp_def)
  then show ?thesis by (simp add: concat_chunks_from)
qed

lemma hd_data_frames: "w \<in> set (data_frames a buf) \<Longrightarrow> hd (snd w) = 0x40 \<and> fst w = a"
  by (auto simp: data_frames_def)

lemma length_data_frames:
  "length (data_frames a buf) = (length buf + (chunk_size - 1)) div chunk_size"
  by (simp add: data_frames_def length_chunks_from)

lemma write_data_count:
  assumes "fst (write_data d buf) = None"
  shows "length (emitted d (snd (write_data d buf))) = (length buf + 31) div 32"
  using issues_emitted(3) [OF issues_write_data assms]
  by (simp add: length_data_frames chunk_size_def)

section \<open>The operations and the bus\<close>

lemma issues_logs: "issues d fs r \<Longrightarrow> logs d fs r"
  using issues_emitted [of d fs r] by (simp add: logs_def)

lemma logs_andthen:
  assumes r: "logs d fs r"
    and f: "fst r = None \<Longrightarrow> logs (snd r) gs (f (snd r))"
  shows "logs d (fs @ gs) (andthen r f)"
proof (cases "fst r")
  case (Some e)
  then have "andthen r f = r" by (rule andthen_fst_Some)
  with r Some show ?thesis by (simp add: logs_def prefix_prefix)
next
  case None
  then have a: "andthen r f = f (snd r)" by (rule andthen_fst_None)
  from r None have 1: "sent (i2c (snd r)) = sent (i2c d) @ fs"
    by (simp add: logs_def)
  from f [OF None] obtain ws where 2: "sent (i2c (snd (f (snd r)))) = sent (i2c (snd r)) @ ws"
    "prefix ws gs" "fst (f (snd r)) = None \<longrightarrow> ws = gs"
    by (auto simp: logs_def)
  from 1 2 have "emitted d (snd (f (snd r))) = fs @ ws"
    by (simp add: emitted_def)
  with 1 2 show ?thesis by (simp add: a logs_def)
qed

lemma write_cmd_if:
  "(if c then write_cmd d a else write_cmd d b) = write_cmd d (if c then a else b)"
  by simp

lemma sh1106_poweroff_elements: "sh1106_poweroff d = write_elements [Command 0xAE] d"
  and sh1106_poweron_elements: "sh1106_poweron d = write_elements [Command 0xAF] d"
  and sh1106_contrast_elements: "sh1106_contrast d v = write_elements [Command 0x81, Command v] d"
  and sh1106_invert_elements:
    "sh1106_invert d v = write_elements [Command (0xA6 OR (v AND 1))] d"
  and sh1106_rotate_elements:
    "sh1106_rotate d flag = write_elements
       (if flag then [Command 0xC0, Command 0xA0] else [Command 0xC8, Command 0xA1]) d"
  and ssd1306_poweroff_elements: "ssd1306_poweroff d = write_elements [Command 0xAE] d"
  and ssd1306_poweron_elements: "ssd1306_poweron d = write_elements [Command 0xAF] d"
  and ssd1306_contrast_elements: "ssd1306_contrast d v = write_elements [Command 0x81, Command v] d"
  and ssd1306_invert_elements:
    "ssd1306_invert d v = write_elements [Command (0xA6 OR (v AND 1))] d"
  by (simp_all add: sh1106_poweroff_def sh1106_poweron_def sh1106_contrast_def sh1106_invert_def
      sh1106_rotate_def ssd1306_poweroff_def ssd1306_poweron_def ssd1306_contrast_def
      ssd1306_invert_def command_defs write_elements_fun)

lemma sh1106_init_display_elements:
  "sh1106_init_display d =
     andthen (write_elements (map Command (sh1106_init_commands d)) d)
       (\<lambda>d'. write_elements (update_sequence Paged (fill d 0)) (fill d' 0))"
proof -
  have "sh1106_init_display d =
     andthen (write_elements (map Command (sh1106_init_commands d)) d)
       (\<lambda>d'. write_elements (update_sequence Paged (fill d' 0)) (fill d' 0))"
    by (simp add: sh1106_init_display_def write_cmds_elements sh1106_show_elements fill_def)
  also have "\<dots> = andthen (write_elements (map Command (sh1106_init_commands d)) d)
       (\<lambda>d'. write_elements (update_sequence Paged (fill d 0)) (fill d' 0))"
    by (rule andthen_write_elements_cong)
      (simp add: fill_def sh1106_page_elements_def [abs_def])
  finally show ?thesis .
qed

lemma ssd1306_init_display_elements:
  "ssd1306_init_display d =
     andthen (write_elements (map Command (ssd1306_init_commands d)) d)
       (\<lambda>d'. write_elements (update_sequence AutoIncrement (fill d 0)) (fill d' 0))"
proof -
  let ?cp = "ssd1306_com_pins_contrast (width d) (height d) (external_vcc d)"
  have "ssd1306_init_display d =
    andthen (write_cmd d 0xAE) (\<lambda>s0.
    andthen (write_cmd s0 0xD5) (\<lambda>s1.
    andthen (write_cmd s1 0x80) (\<lambda>s2.
    andthen (write_cmd s2 0xA8) (\<lambda>s3.
    andthen (write_cmd s3 (height d - 1)) (\<lambda>s4.
    andthen (write_cmd s4 0xD3) (\<lambda>s5.
    andthen (write_cmd s5 0x00) (\<lambda>s6.
    andthen (write_cmd s6 0x40) (\<lambda>s7.
    andthen (write_cmd s7 0x8D) (\<lambda>s8.
    andthen (write_cmd s8 (if external_vcc d then 0x10 else 0x14)) (\<lambda>s9.
    andthen (write_cmd s9 0x20) (\<lambda>s10.
    andthen (write_cmd s10 0x00) (\<lambda>s11.
    andthen (write_cmd s11 0xA1) (\<lambda>s12.
    andthen (write_cmd s12 0xC8) (\<lambda>s13.
    andthen (write_cmd s13 0xDA) (\<lambda>s14.
    andthen (write_cmd s14 (fst ?cp)) (\<lambda>s15.
    andthen (write_cmd s15 0x81) (\<lambda>s16.
    andthen (write_cmd s16 (snd ?cp)) (\<lambda>s17.
    andthen (write_cmd s17 0xD9) (\<lambda>s18.
    andthen (write_cmd s18 (if external_vcc d then 0x22 else 0xF1)) (\<lambda>s19.
    andthen (write_cmd s19 0xDB) (\<lambda>s20.
    andthen (write_cmd s20 0x40) (\<lambda>s21.
    andthen (write_cmd s21 0xA4) (\<lambda>s22.
    andthen (write_cmd s22 0xA6) (\<lambda>s23.
    andthen (write_cmd s23 0x2E) (\<lambda>s24.
    andthen (write_cmd s24 0xAF) (\<lambda>s25.
      write_elements (update_sequence AutoIncrement (fill d 0)) (fill s25 0)
    ))))))))))))))))))))))))))"
    unfolding ssd1306_init_display_def command_defs
    apply (simp add: block_fun write_cmd_if ssd1306_show_elements [abs_def] split del: if_split)
    apply (rule andthen_write_cmd_cong, (simp split del: if_split)?)+
    apply (simp add: fill_def auto_update_sequence_def)
    done
  also have "\<dots> = andthen (write_elements (map Command (ssd1306_init_commands d)) d)
       (\<lambda>d'. write_elements (update_sequence AutoIncrement (fill d 0)) (fill d' 0))"
    by (simp add: ssd1306_init_commands_def write_elements_fun andthen_assoc split del: if_split)
  finally show ?thesis .
qed

lemma frames_append: "frames a (es @ fs) = frames a es @ frames a fs"
  by (induction es rule: frames.induct) simp_all

lemma frames_concat_map:
  "frames a es =
     concat (map (\<lambda>e. case e of Command c \<Rightarrow> [(a, [0x80, word_of_int c])]
                           | DataRun bs \<Rightarrow> data_frames a bs) es)"
  by (induction es rule: frames.induct) (simp_all add: cmd_frame_def)

lemma byte_commands_append: "byte_commands (es @ fs) \<longleftrightarrow> byte_commands es \<and> byte_commands fs"
  by (induction es rule: byte_commands.induct) simp_all

lemma byte_commands_map_Command:
  "byte_commands (map Command cs) \<longleftrightarrow> list_all (\<lambda>c. 0 \<le> c \<and> c < 256) cs"
  by (induction cs) simp_all

lemma logs_same_bus: "i2c d1 = i2c d2 \<Longrightarrow> logs d1 fs r = logs d2 fs r"
  by (simp add: logs_def emitted_def)

lemma logs_write_elements: "logs d (frames (addr d) es) (write_elements es d)"
  by (rule issues_logs) (rule issues_write_elements)

lemma fill_fields [simp]:
  "i2c (fill d c) = i2c d" "addr (fill d c) = addr d" "width (fill d c) = width d"
  "height (fill d c) = height d" "pages (fill d c) = pages d"
  "external_vcc (fill d c) = external_vcc d"
  "buffer (fill d c) = replicate (length (buffer d)) (if c = 0 then 0x00 else 0xFF)"
  by (simp_all add: fill_def)

lemma logs_init:
  "logs d (frames (addr d) (A @ B))
     (andthen (write_elements A d) (\<lambda>d'. write_elements B (fill d' 0)))"
proof -
  have "logs d (frames (addr d) A @ frames (addr d) B)
     (andthen (write_elements A d) (\<lambda>d'. write_elements B (fill d' 0)))"
  proof (rule logs_andthen [OF logs_write_elements])
    let ?d' = "snd (write_elements A d)"
    have "addr ?d' = addr d"
      by (rule issues_fields(1) [OF issues_write_elements])
    then have "logs (fill ?d' 0) (frames (addr d) B) (write_elements B (fill ?d' 0))"
      using logs_write_elements [of "fill ?d' 0" B] by simp
    then show "logs ?d' (frames (addr d) B) (write_elements B (fill ?d' 0))"
      by (simp add: logs_same_bus [of "fill ?d' 0" ?d'])
  qed
  then show ?thesis by (simp add: frames_append)
qed

lemma perform_elements:
  assumes "op \<noteq> Init" "supported fam op"
  shows "perform fam op d = write_elements (command_sequence fam op d) d"
  using assms
  by (cases fam; cases op)
    (simp_all add: sh1106_show_elements sh1106_poweron_elements sh1106_poweroff_elements
      sh1106_contrast_elements sh1106_invert_elements sh1106_rotate_elements
      ssd1306_show_elements ssd1306_poweron_elements ssd1306_poweroff_elements
      ssd1306_contrast_elements ssd1306_invert_elements
      del: write_elements.simps)

lemma perform_Init_elements:
  "perform fam Init d =
     andthen (write_elements (map Command
         (case fam of Paged \<Rightarrow> sh1106_init_commands d | AutoIncrement \<Rightarrow> ssd1306_init_commands d)) d)
       (\<lambda>d'. write_elements (update_sequence fam (fill d 0)) (fill d' 0))"
  by (cases fam)
    (simp_all add: sh1106_init_display_elements ssd1306_init_display_elements
      del: update_sequence.simps)

lemma command_sequence_Init:
  "command_sequence fam Init d =
     map Command (case fam of Paged \<Rightarrow> sh1106_init_commands d
                            | AutoIncrement \<Rightarrow> ssd1306_init_commands d)
     @ update_sequence fam (fill d 0)"
  by (cases fam) simp_all

lemma logs_perform: "logs d (frames (addr d) (command_sequence fam op d)) (perform fam op d)"
proof (cases "op = Init")
  case True
  then show ?thesis
    by (simp only: perform_Init_elements command_sequence_Init logs_init)
next
  case False
  show ?thesis
  proof (cases "supported fam op")
    case True
    show ?thesis
      by (simp only: perform_elements [OF False True] logs_write_elements)
  next
    case False
    then obtain flag where "fam = AutoIncrement" "op = Rotate flag"
      by (cases fam; cases op) simp_all
    then show ?thesis by (simp add: logs_def emitted_def)
  qed
qed

lemma init_ok:
  assumes "\<forall>k. \<not> fails (i2c d) k" "byte_commands (A @ B)"
  shows "andthen (write_elements A d) (\<lambda>d'. write_elements B (fill d' 0)) =
     (None, sends (fill d 0) (frames (addr d) (A @ B)))"
proof -
  from assms have A: "write_elements A d = (None, sends d (frames (addr d) A))"
    by (intro write_elements_ok) (simp_all add: byte_commands_append)
  have f: "fill (sends d ws) 0 = sends (fill d 0) ws" for ws
    by (simp add: fill_def sends_def)
  from assms have "write_elements B (fill d 0) = (None, sends (fill d 0) (frames (addr (fill d 0)) B))"
    by (intro write_elements_ok) (simp_all add: byte_commands_append)
  moreover have "\<forall>k. \<not> fails (i2c (sends (fill d 0) (frames (addr d) A))) k"
    using assms by simp
  then have "write_elements B (sends (fill d 0) (frames (addr d) A)) =
      (None, sends (sends (fill d 0) (frames (addr d) A)) (frames (addr d) B))"
    using assms write_elements_ok [of "sends (fill d 0) (frames (addr d) A)" B]
    by (simp add: byte_commands_append)
  ultimately show ?thesis
    by (simp add: A f frames_append)
qed

lemma perform_ok:
  assumes "\<forall>k. \<not> fails (i2c d) k" "byte_commands (command_sequence fam op d)"
    and "supported fam op"
  shows "perform fam op d =
     (None, sends (if op = Init then fill d 0 else d) (frames (addr d) (command_sequence fam op d)))"
proof (cases "op = Init")
  case True
  from assms(2) have "byte_commands (map Command
         (case fam of Paged \<Rightarrow> sh1106_init_commands d | AutoIncrement \<Rightarrow> ssd1306_init_commands d)
       @ update_sequence fam (fill d 0))"
    by (simp only: True command_sequence_Init)
  from init_ok [OF assms(1) this] True show ?thesis
    by (simp only: perform_Init_elements command_sequence_Init if_True simp_thms)
next
  case False
  from write_elements_ok [OF assms(1,2)] False show ?thesis
    by (simp only: perform_elements [OF False assms(3)] if_False)
qed

subsection \<open>Command bytes on the bus\<close>

lemma command_byte_data [simp]: "command_byte (a, 0x40 # chunk) = []"
proof (cases chunk)
  case Nil
  then show ?thesis by simp
next
  case (Cons x xs)
  then show ?thesis by (cases xs) simp_all
qed

lemma command_bytes_data_frames [simp]: "command_bytes (data_frames a buf) = []"
  by (simp add: command_bytes_def data_frames_def comp_def)

lemma command_bytes_append [simp]:
  "command_bytes (ws @ vs) = command_bytes ws @ command_bytes vs"
  by (simp add: command_bytes_def)

lemma command_bytes_frames: "command_bytes (frames a es) = map word_of_int (commands_of es)"
proof (induction es rule: frames.induct)
  case (3 a bs es)
  then show ?case by simp
qed (simp_all add: cmd_frame_def command_bytes_def)

subsection \<open>Page slices and byte ranges\<close>

lemma py_slice_window:
  assumes "0 \<le> a" "0 \<le> w"
  shows "py_slice xs a (a + w) = take (nat w) (drop (nat a) xs)"
proof (cases "a \<le> int (length xs)")
  case False
  with assms show ?thesis by (simp add: py_slice_def Let_def min_def)
next
  case True
  show ?thesis
  proof (cases "a + w \<le> int (length xs)")
    case True
    with assms show ?thesis by (simp add: py_slice_def Let_def min_def)
  next
    case False
    with True assms have "length (drop (nat a) xs) \<le> nat w" by simp
    with True False assms show ?thesis
      by (simp add: py_slice_def Let_def min_def nat_diff_distrib)
  qed
qed

lemma page_command_byte:
  assumes "0 \<le> p" "p < 256"
  shows "0 \<le> (0xB0::int) OR p \<and> (0xB0::int) OR p < 256"
proof -
  have "(0xB0::int) OR p < 2 ^ 8"
    using assms by (intro OR_upper) simp_all
  with assms show ?thesis by simp
qed

lemma byte_commands_concat_map:
  "byte_commands (concat (map f ps)) \<longleftrightarrow> list_all (\<lambda>p. byte_commands (f p)) ps"
  by (induction ps) (simp_all add: byte_commands_append)

lemma byte_commands_page_elements:
  "0 \<le> p \<Longrightarrow> p < 256 \<Longrightarrow> byte_commands (sh1106_page_elements d p)"
  using page_command_byte [of p] by (simp add: sh1106_page_elements_def)

lemma py_range_bounds: "p \<in> set (py_range n) \<longleftrightarrow> 0 \<le> p \<and> p < n"
  by (auto simp: py_range_def image_iff intro: bexI [where x = "nat p"])

lemma byte_commands_paged_update:
  "pages d \<le> 256 \<Longrightarrow> byte_commands (update_sequence Paged d)"
  by (auto simp: byte_commands_concat_map list_all_iff py_range_bounds
      intro!: byte_commands_page_elements)

lemma byte_commands_auto_update:
  "1 \<le> width d \<Longrightarrow> width d \<le> 256 \<Longrightarrow> 1 \<le> pages d \<Longrightarrow> pages d \<le> 256 \<Longrightarrow>
   byte_commands (update_sequence AutoIncrement d)"
  by (simp add: auto_update_sequence_def)

lemma com_pins_contrast_bytes:
  "0 \<le> fst (ssd1306_com_pins_contrast w h ext) \<and> fst (ssd1306_com_pins_contrast w h ext) < 256 \<and>
   0 \<le> snd (ssd1306_com_pins_contrast w h ext) \<and> snd (ssd1306_com_pins_contrast w h ext) < 256"
  by (simp add: ssd1306_com_pins_contrast_def)

lemma byte_commands_sh1106_init:
  "1 \<le> height d \<Longrightarrow> height d \<le> 256 \<Longrightarrow> byte_commands (map Command (sh1106_init_commands d))"
  by (simp add: sh1106_init_commands_def command_defs)

lemma byte_commands_ssd1306_init:
  "1 \<le> height d \<Longrightarrow> height d \<le> 256 \<Longrightarrow> byte_commands (map Command (ssd1306_init_commands d))"
  using com_pins_contrast_bytes [of "width d" "height d" "external_vcc d"]
  by (simp add: ssd1306_init_commands_def)

lemma page_block_eq:
  "0 \<le> width d \<Longrightarrow> 0 \<le> p \<Longrightarrow> sh1106_page_elements d p = page_block d p"
  by (simp add: sh1106_page_elements_def page_block_def column_offset_def py_slice_window
      mult_nonneg_nonneg)

lemma paged_update_sequence_eq:
  assumes "0 \<le> width d"
  shows "update_sequence Paged d = paged_update_sequence d"
proof -
  have "map (sh1106_page_elements d) (py_range (pages d)) = map (page_block d) (py_range (pages d))"
    using assms by (intro map_cong refl page_block_eq) (simp_all add: py_range_bounds)
  then show ?thesis by (simp only: update_sequence.simps paged_update_sequence_def)
qed

lemma page_data_length:
  assumes "length buf = nat (n * w)" "0 \<le> p" "p < n" "0 \<le> w"
  shows "length (take (nat w) (drop (nat (p * w)) buf)) = nat w"
proof -
  have "(p + 1) * w \<le> n * w"
    using assms by (intro mult_right_mono) simp_all
  then have "p * w + w \<le> n * w" by (simp add: algebra_simps)
  moreover have "0 \<le> p * w" using assms by simp
  ultimately have "nat w \<le> nat (n * w) - nat (p * w)" by linarith
  with assms(1) show ?thesis by simp
qed

lemma py_range_8: "py_range 8 = [0, 1, 2, 3, 4, 5, 6, 7]"
  by (simp add: py_range_def upt_rec)

lemma commands_of_concat_map:
  "commands_of (concat (map f ps)) = concat (map (\<lambda>p. commands_of (f p)) ps)"
proof -
  have app: "commands_of (es @ fs) = commands_of es @ commands_of fs" for es fs
    by (induction es rule: commands_of.induct) simp_all
  show ?thesis by (induction ps) (simp_all add: app)
qed

section \<open>Construction\<close>

lemma fresh_fields [simp]:
  "i2c (fresh w h bus a ext) = bus" "addr (fresh w h bus a ext) = a"
  "external_vcc (fresh w h bus a ext) = ext" "width (fresh w h bus a ext) = w"
  "height (fresh w h bus a ext) = h" "pages (fresh w h bus a ext) = h div 8"
  "buffer (fresh w h bus a ext) = replicate (nat (h div 8 * w)) 0"
  by (simp_all add: fresh_def)

lemma fill_fresh [simp]: "fill (fresh w h bus a ext) 0 = fresh w h bus a ext"
  by (simp add: fill_def fresh_def)

lemma SH1106_I2C_fresh:
  "SH1106_I2C fb_new w h bus a ext =
     (if h div 8 * w < 0 then Inl ValueError
      else case fb_new (nat (h div 8 * w)) w h of
             Some e \<Rightarrow> Inl e
           | None \<Rightarrow> (case perform Paged Init (fresh w h bus a ext) of
                        (Some e, d) \<Rightarrow> Inl e | (None, d) \<Rightarrow> Inr d))"
  unfolding SH1106_I2C_def Let_def fresh_def perform.simps by simp

lemma CustomSSD1306_fresh:
  "CustomSSD1306 fb_new w h bus a ext =
     (if h div 8 * w < 0 then Inl ValueError
      else case fb_new (nat (h div 8 * w)) w h of
             Some e \<Rightarrow> Inl e
           | None \<Rightarrow> (case perform AutoIncrement Init (fresh w h bus a ext) of
                        (Some e, d) \<Rightarrow> Inl e | (None, d) \<Rightarrow> Inr d))"
  unfolding CustomSSD1306_def Let_def fresh_def perform.simps by simp

lemma init_returns:
  assumes "fst (perform fam Init d) = None"
  shows "\<exists>b. snd (perform fam Init d) = (fill d 0)\<lparr>i2c := b\<rparr>"
proof -
  let ?A = "map Command (case fam of Paged \<Rightarrow> sh1106_init_commands d
                                   | AutoIncrement \<Rightarrow> ssd1306_init_commands d)"
  let ?B = "update_sequence fam (fill d 0)"
  let ?r = "write_elements ?A d"
  have p: "perform fam Init d = andthen ?r (\<lambda>d'. write_elements ?B (fill d' 0))"
    by (rule perform_Init_elements)
  have r: "fst ?r = None"
  proof (cases "fst ?r")
    case (Some e)
    with assms p show ?thesis by (simp add: andthen_fst_Some)
  qed
  then have q: "perform fam Init d = write_elements ?B (fill (snd ?r) 0)"
    by (simp add: p andthen_fst_None)
  obtain b where b: "snd ?r = d\<lparr>i2c := b\<rparr>"
    using issues_write_elements [of d ?A] by (auto simp: issues_def)
  obtain b' where "snd (write_elements ?B (fill (snd ?r) 0)) = (fill (snd ?r) 0)\<lparr>i2c := b'\<rparr>"
    using issues_write_elements [of "fill (snd ?r) 0" ?B] by (auto simp: issues_def)
  with b q have "snd (perform fam Init d) = (fill d 0)\<lparr>i2c := b'\<rparr>"
    by (simp add: fill_def)
  then show ?thesis ..
qed

lemma constructed_fields:
  assumes "SH1106_I2C fb_new w h bus a ext = Inr d \<or> CustomSSD1306 fb_new w h bus a ext = Inr d"
  shows "width d = w \<and> height d = h \<and> pages d = h div 8 \<and> addr d = a \<and>
         external_vcc d = ext \<and> buffer d = replicate (nat (h div 8 * w)) 0 \<and>
         length (buffer d) = nat (pages d * width d)"
proof -
  have "\<exists>fam. perform fam Init (fresh w h bus a ext) = (None, d)"
    using assms
  proof
    assume "SH1106_I2C fb_new w h bus a ext = Inr d"
    then have "perform Paged Init (fresh w h bus a ext) = (None, d)"
      by (simp add: SH1106_I2C_fresh split: if_splits option.splits prod.splits)
    then show ?thesis ..
  next
    assume "CustomSSD1306 fb_new w h bus a ext = Inr d"
    then have "perform AutoIncrement Init (fresh w h bus a ext) = (None, d)"
      by (simp add: CustomSSD1306_fresh split: if_splits option.splits prod.splits)
    then show ?thesis ..
  qed
  then obtain fam where p: "perform fam Init (fresh w h bus a ext) = (None, d)" ..
  then have "fst (perform fam Init (fresh w h bus a ext)) = None" by simp
  from init_returns [OF this] p obtain b where "d = (fresh w h bus a ext)\<lparr>i2c := b\<rparr>"
    by auto
  then show ?thesis by simp
qed

lemma SH1106_I2C_constructs:
  assumes "\<forall>k. \<not> fails bus k" "fb_new (nat (h div 8 * w)) w h = None"
    and "1 \<le> h" "h \<le> 256" "0 \<le> w"
  shows "SH1106_I2C fb_new w h bus a ext =
     Inr (sends (fresh w h bus a ext)
            (frames a (command_sequence Paged Init (fresh w h bus a ext))))"
proof -
  let ?d = "fresh w h bus a ext"
  have "byte_commands (command_sequence Paged Init ?d)"
    using assms byte_commands_sh1106_init [of ?d] byte_commands_paged_update [of ?d]
    by (simp add: byte_commands_append del: update_sequence.simps)
  then have "perform Paged Init ?d = (None, sends ?d (frames a (command_sequence Paged Init ?d)))"
    using assms perform_ok [of ?d Paged Init] by simp
  moreover have "0 \<le> h div 8 * w"
    using assms by (intro mult_nonneg_nonneg) simp_all
  then have "(h div 8 * w < 0) = False" by simp
  ultimately show ?thesis
    using assms(2) by (simp only: SH1106_I2C_fresh if_False option.case prod.case)
qed

lemma CustomSSD1306_constructs:
  assumes "\<forall>k. \<not> fails bus k" "fb_new (nat (h div 8 * w)) w h = None"
    and "8 \<le> h" "h \<le> 256" "1 \<le> w" "w \<le> 256"
  shows "CustomSSD1306 fb_new w h bus a ext =
     Inr (sends (fresh w h bus a ext)
            (frames a (command_sequence AutoIncrement Init (fresh w h bus a ext))))"
proof -
  let ?d = "fresh w h bus a ext"
  have "1 \<le> h div 8" "h div 8 \<le> 256"
    using assms by simp_all
  then have "byte_commands (command_sequence AutoIncrement Init ?d)"
    using assms byte_commands_ssd1306_init [of ?d] byte_commands_auto_update [of ?d]
    by (simp add: byte_commands_append del: update_sequence.simps)
  then have "perform AutoIncrement Init ?d =
      (None, sends ?d (frames a (command_sequence AutoIncrement Init ?d)))"
    using assms perform_ok [of ?d AutoIncrement Init] by simp
  moreover have "0 \<le> h div 8 * w"
    using assms by (intro mult_nonneg_nonneg) simp_all
  then have "(h div 8 * w < 0) = False" by simp
  ultimately show ?thesis
    using assms(2) by (simp only: CustomSSD1306_fresh if_False option.case prod.case)
qed

lemma FrameBuffer_new_driver_buffer:
  assumes "1 \<le> w" "1 \<le> h"
  shows "FrameBuffer_new (nat (h div 8 * w)) w h =
     (if 8 dvd h then None else Some InvalidDimension)"
proof -
  have n: "int (nat (h div 8 * w)) = h div 8 * w"
    using assms by simp
  show ?thesis
  proof (cases "8 dvd h")
    case True
    then have "(h - 1) div 8 = h div 8 - 1" by presburger
    then have "(h - 1) div 8 * w + (w - 1) = (h div 8 - 1) * w + (w - 1)"
      by (rule arg_cong)
    also have "\<dots> = h div 8 * w - 1"
      by (simp add: algebra_simps)
    finally have "(h - 1) div 8 * w + (w - 1) = h div 8 * w - 1" .
    with True assms show ?thesis by (simp add: FrameBuffer_new_def n)
  next
    case False
    then have "(h - 1) div 8 = h div 8" by presburger
    with False assms show ?thesis by (simp add: FrameBuffer_new_def n)
  qed
qed

lemma FrameBuffer_new_rejects:
  assumes "\<not> 8 dvd h" "\<not> h div 8 * w < 0"
  shows "FrameBuffer_new (nat (h div 8 * w)) w h = Some InvalidDimension"
proof (cases "1 \<le> w \<and> 1 \<le> h")
  case True
  with assms(1) show ?thesis by (simp add: FrameBuffer_new_driver_buffer)
next
  case False
  then show ?thesis by (auto simp: FrameBuffer_new_def)
qed

lemma construction_rejected:
  assumes "\<not> 8 dvd h"
  shows "SH1106_I2C FrameBuffer_new w h bus a ext =
           (if h div 8 * w < 0 then Inl ValueError else Inl InvalidDimension)"
    and "CustomSSD1306 FrameBuffer_new w h bus a ext =
           (if h div 8 * w < 0 then Inl ValueError else Inl InvalidDimension)"
  using assms
  by (simp_all add: SH1106_I2C_fresh CustomSSD1306_fresh FrameBuffer_new_rejects)

section \<open>The claims\<close>

text \<open>
  C1 (the code departs from the claim). With \<open>M = 32\<close> the claim asks for
  \<open>ceil(L / 31)\<close> transactions, so two for a run of 32 bytes. \<^verbatim>\<open>write_data\<close> cuts the run
  into slices of \<^verbatim>\<open>chunk_size = 32\<close> data bytes and puts the control byte in front of each:
  a run of 32 bytes goes out as one transaction of 33 bytes.
\<close>

theorem write_data_32_bytes_is_one_33_byte_write:
  "fst (write_data panel_128x64 (replicate 32 0xFF)) = None \<and>
   map (\<lambda>w. length (snd w)) (emitted panel_128x64 (snd (write_data panel_128x64 (replicate 32 0xFF))))
     = [33] \<and>
   (32 + (chunk_size - 2)) div (chunk_size - 1) = 2"
  by (simp add: write_data_ok data_frames_def chunks_from.simps chunk_size_def)

text \<open>
  C2. \<^verbatim>\<open>SH1106_I2C.show\<close> issues, for the pages \<open>0 .. pages - 1\<close> in order, the block of
  each page: the command \<open>0xB0 | p\<close>, the command \<open>0x00 | (column_offset & 0x0F)\<close>, the
  command \<open>0x10 | (column_offset >> 4)\<close> and one \<open>DataRun\<close> of the bytes of the buffer
  from \<open>p * width\<close>, \<open>width\<close> of them (exactly \<open>width\<close> when the buffer holds
  \<open>pages * width\<close> bytes); each page has its own block. The width is taken non-negative,
  as every constructed object's is unless it has no page.
\<close>

theorem sh1106_show_page_blocks:
  "(0 \<le> width d \<longrightarrow>
      sh1106_show d =
        write_elements
          (concat (map (\<lambda>p.
             [Command (0xB0 OR p),
              Command (0x00 OR (column_offset (width d) AND 0x0F)),
              Command (0x10 OR drop_bit 4 (column_offset (width d))),
              DataRun (take (nat (width d)) (drop (nat (p * width d)) (buffer d)))])
           (py_range (pages d)))) d) \<and>
   (0 \<le> width d \<and> length (buffer d) = nat (pages d * width d) \<longrightarrow>
      list_all (\<lambda>p. length (take (nat (width d)) (drop (nat (p * width d)) (buffer d)))
                      = nat (width d))
        (py_range (pages d)))"
proof (intro conjI impI)
  assume "0 \<le> width d"
  then have "sh1106_show d = write_elements (paged_update_sequence d) d"
    using paged_update_sequence_eq [of d] by (simp add: sh1106_show_elements)
  then show "sh1106_show d =
        write_elements
          (concat (map (\<lambda>p.
             [Command (0xB0 OR p),
              Command (0x00 OR (column_offset (width d) AND 0x0F)),
              Command (0x10 OR drop_bit 4 (column_offset (width d))),
              DataRun (take (nat (width d)) (drop (nat (p * width d)) (buffer d)))])
           (py_range (pages d)))) d"
    by (simp only: paged_update_sequence_def page_block_def [abs_def])
next
  assume "0 \<le> width d \<and> length (buffer d) = nat (pages d * width d)"
  then show "list_all (\<lambda>p. length (take (nat (width d)) (drop (nat (p * width d)) (buffer d)))
                      = nat (width d)) (py_range (pages d))"
    unfolding list_all_iff
    by (intro ballI page_data_length [of "buffer d" "pages d" "width d"])
      (simp_all add: py_range_bounds)
qed

theorem sh1106_show_page_blocks_witness:
  "0 \<le> width panel_128x64 \<and>
   length (buffer panel_128x64) = nat (pages panel_128x64 * width panel_128x64) \<and>
   sh1106_show panel_128x64 =
     write_elements
       (concat (map (\<lambda>p. [Command p, Command 0x02, Command 0x10, DataRun (replicate 128 0xFF)])
          [0xB0, 0xB1, 0xB2, 0xB3, 0xB4, 0xB5, 0xB6, 0xB7]))
       panel_128x64"
  using sh1106_show_page_blocks [of panel_128x64]
  by (simp add: py_range_8 column_offset_def)

text \<open>
  C3. The \<^verbatim>\<open>if\<close>/\<^verbatim>\<open>elif\<close> chain of \<^verbatim>\<open>CustomSSD1306.init_display\<close> is a total function of
  width, height and \<^verbatim>\<open>external_vcc\<close>: 128x64 gives \<open>(0x12, 0xCF)\<close>, or \<open>(0x12, 0x9F)\<close> with
  external Vcc; 128x32 gives \<open>(0x02, 0x8F)\<close>; 96x16 gives \<open>(0x02, 0xAF)\<close>, or \<open>(0x02, 0x10)\<close>
  with external Vcc; 64x32 gives \<open>(0x12, 0xCF)\<close>, or \<open>(0x12, 0x10)\<close> with external Vcc;
  every other pair of dimensions gives \<open>(0x02, 0x8F)\<close>.
\<close>

theorem ssd1306_profile_table:
  "ssd1306_com_pins_contrast 128 64 False = (0x12, 0xCF) \<and>
   ssd1306_com_pins_contrast 128 64 True = (0x12, 0x9F) \<and>
   ssd1306_com_pins_contrast 128 32 ext = (0x02, 0x8F) \<and>
   ssd1306_com_pins_contrast 96 16 False = (0x02, 0xAF) \<and>
   ssd1306_com_pins_contrast 96 16 True = (0x02, 0x10) \<and>
   ssd1306_com_pins_contrast 64 32 False = (0x12, 0xCF) \<and>
   ssd1306_com_pins_contrast 64 32 True = (0x12, 0x10) \<and>
   ((w, h) \<notin> {(128, 64), (128, 32), (96, 16), (64, 32)} \<longrightarrow>
      ssd1306_com_pins_contrast w h ext = (0x02, 0x8F))"
  by (simp add: ssd1306_com_pins_contrast_def)

theorem ssd1306_profile_table_witness:
  "(100::int, 50::int) \<notin> {(128, 64), (128, 32), (96, 16), (64, 32)} \<and>
   ssd1306_com_pins_contrast 100 50 True = (0x02, 0x8F)"
  using ssd1306_profile_table [of True 100 50]
  by simp

text \<open>
  C4. In \<^verbatim>\<open>SH1106_I2C.show\<close> the column offset is 2 when the width is 128 and 0 for every
  other width: when no transaction fails (and the page numbers fit a byte), show returns,
  and the command bytes it put on the bus are, page after page, \<open>0xB0 | p\<close>, then
  \<open>0x00 | (offset & 0x0F)\<close>, then \<open>0x10 | (offset >> 4)\<close>, that is \<open>0x02\<close>, \<open>0x10\<close> for
  width 128 and \<open>0x00\<close>, \<open>0x10\<close> otherwise.
\<close>

theorem sh1106_show_column_offset:
  "((\<forall>k. \<not> fails (i2c d) k) \<and> pages d \<le> 256 \<longrightarrow>
      fst (sh1106_show d) = None \<and>
      command_bytes (emitted d (snd (sh1106_show d))) =
        concat (map (\<lambda>p.
            [word_of_int (0xB0 OR p),
             word_of_int (0x00 OR (column_offset (width d) AND 0x0F)),
             word_of_int (0x10 OR drop_bit 4 (column_offset (width d)))])
          (py_range (pages d)))) \<and>
   column_offset (width d) = (if width d = 128 then 2 else 0) \<and>
   (0x00 OR (column_offset (width d) AND 0x0F)) = (if width d = 128 then 0x02 else 0x00) \<and>
   (0x10 OR drop_bit 4 (column_offset (width d))) = 0x10"
proof (intro conjI impI)
  assume a: "(\<forall>k. \<not> fails (i2c d) k) \<and> pages d \<le> 256"
  then have "sh1106_show d = (None, sends d (frames (addr d) (update_sequence Paged d)))"
    using write_elements_ok [of d "update_sequence Paged d"] byte_commands_paged_update [of d]
    by (simp add: sh1106_show_elements)
  then show "fst (sh1106_show d) = None"
    and "command_bytes (emitted d (snd (sh1106_show d))) =
        concat (map (\<lambda>p.
            [word_of_int (0xB0 OR p),
             word_of_int (0x00 OR (column_offset (width d) AND 0x0F)),
             word_of_int (0x10 OR drop_bit 4 (column_offset (width d)))])
          (py_range (pages d)))"
    by (simp_all add: command_bytes_frames commands_of_concat_map sh1106_page_elements_def
        column_offset_def map_concat comp_def)
qed (simp_all add: column_offset_def)

theorem sh1106_show_column_offset_witness:
  "(\<forall>k. \<not> fails (i2c panel_128x64) k) \<and> pages panel_128x64 \<le> 256 \<and>
   fst (sh1106_show panel_128x64) = None \<and>
   command_bytes (emitted panel_128x64 (snd (sh1106_show panel_128x64))) =
     [0xB0, 0x02, 0x10, 0xB1, 0x02, 0x10, 0xB2, 0x02, 0x10, 0xB3, 0x02, 0x10,
      0xB4, 0x02, 0x10, 0xB5, 0x02, 0x10, 0xB6, 0x02, 0x10, 0xB7, 0x02, 0x10]"
  using sh1106_show_column_offset [of panel_128x64]
  by (simp add: py_range_8 column_offset_def)

text \<open>
  C5. Constructing a display whose height is not divisible by 8 fails, in both drivers
  and on every bus, before anything is written: \<^verbatim>\<open>__init__\<close> makes a buffer of
  \<open>(height // 8) * width\<close> bytes, one page short of the pixels, and the base-class
  constructor refuses it with \<open>InvalidDimension\<close> (for positive dimensions; with a
  negative buffer size \<^verbatim>\<open>bytearray\<close> has raised already). So an object is constructed
  only when the height is a multiple of 8, and with such a height (8 to 256, width 1 to
  256, no transaction failing) it is constructed.
\<close>

theorem construction_requires_height_multiple_of_8:
  "(\<not> 8 dvd h \<longrightarrow>
      isl (SH1106_I2C FrameBuffer_new w h bus a ext) \<and>
      isl (CustomSSD1306 FrameBuffer_new w h bus a ext)) \<and>
   (\<not> 8 dvd h \<and> 1 \<le> w \<and> 1 \<le> h \<longrightarrow>
      SH1106_I2C FrameBuffer_new w h bus a ext = Inl InvalidDimension \<and>
      CustomSSD1306 FrameBuffer_new w h bus a ext = Inl InvalidDimension) \<and>
   (SH1106_I2C FrameBuffer_new w h bus a ext = Inr d \<or>
    CustomSSD1306 FrameBuffer_new w h bus a ext = Inr d \<longrightarrow> 8 dvd h) \<and>
   ((\<forall>k. \<not> fails bus k) \<and> 8 dvd h \<and> 8 \<le> h \<and> h \<le> 256 \<and> 1 \<le> w \<and> w \<le> 256 \<longrightarrow>
      \<not> isl (SH1106_I2C FrameBuffer_new w h bus a ext) \<and>
      \<not> isl (CustomSSD1306 FrameBuffer_new w h bus a ext))"
proof (intro conjI impI)
  assume "\<not> 8 dvd h"
  then show "isl (SH1106_I2C FrameBuffer_new w h bus a ext)"
    and "isl (CustomSSD1306 FrameBuffer_new w h bus a ext)"
    by (simp_all add: construction_rejected)
next
  assume a: "\<not> 8 dvd h \<and> 1 \<le> w \<and> 1 \<le> h"
  then have "0 \<le> h div 8" by presburger
  moreover from a have "0 \<le> w" by simp
  ultimately have "0 \<le> h div 8 * w"
    by (rule mult_nonneg_nonneg)
  then have "\<not> h div 8 * w < 0"
    by simp
  with a show "SH1106_I2C FrameBuffer_new w h bus a ext = Inl InvalidDimension"
    and "CustomSSD1306 FrameBuffer_new w h bus a ext = Inl InvalidDimension"
    by (simp_all add: construction_rejected)
next
  assume c: "SH1106_I2C FrameBuffer_new w h bus a ext = Inr d \<or>
    CustomSSD1306 FrameBuffer_new w h bus a ext = Inr d"
  show "8 dvd h"
  proof (rule ccontr)
    assume "\<not> 8 dvd h"
    with c show False by (auto simp: construction_rejected split: if_splits)
  qed
next
  assume a: "(\<forall>k. \<not> fails bus k) \<and> 8 dvd h \<and> 8 \<le> h \<and> h \<le> 256 \<and> 1 \<le> w \<and> w \<le> 256"
  then have fb: "FrameBuffer_new (nat (h div 8 * w)) w h = None"
    by (simp add: FrameBuffer_new_driver_buffer)
  from a fb show "\<not> isl (SH1106_I2C FrameBuffer_new w h bus a ext)"
    by (simp add: SH1106_I2C_constructs)
  from a fb show "\<not> isl (CustomSSD1306 FrameBuffer_new w h bus a ext)"
    by (simp add: CustomSSD1306_constructs)
qed

theorem construction_requires_height_multiple_of_8_witness:
  "\<not> (8::int) dvd 12 \<and>
   SH1106_I2C FrameBuffer_new 128 12 idle_bus 0x3C False = Inl InvalidDimension \<and>
   CustomSSD1306 FrameBuffer_new 128 12 idle_bus 0x3C False = Inl InvalidDimension \<and>
   (\<forall>k. \<not> fails idle_bus k) \<and> (8::int) dvd 64 \<and>
   \<not> isl (SH1106_I2C FrameBuffer_new 128 64 idle_bus 0x3C False) \<and>
   \<not> isl (CustomSSD1306 FrameBuffer_new 128 64 idle_bus 0x3C False)"
  using construction_requires_height_multiple_of_8 [of 12 128 idle_bus "0x3C" False]
    construction_requires_height_multiple_of_8 [of 64 128 idle_bus "0x3C" False]
  by (simp add: idle_bus_def)

text \<open>
  C6. \<^verbatim>\<open>CustomSSD1306.show\<close> issues, in this order, the set-column-range command \<open>0x21\<close>
  with the operands \<open>0\<close> and \<open>width - 1\<close>, the set-page-range command \<open>0x22\<close> with the
  operands \<open>0\<close> and \<open>pages - 1\<close>, and one \<open>DataRun\<close> of the whole buffer; when no
  transaction fails and the operands fit a byte it returns, and the bus holds the six
  command frames followed by the data frames of the buffer. The buffer of a constructed
  object has \<open>pages * width\<close> bytes.
\<close>

theorem ssd1306_show_sequence:
  "ssd1306_show d =
     write_elements
       [Command 0x21, Command 0, Command (width d - 1),
        Command 0x22, Command 0, Command (pages d - 1),
        DataRun (buffer d)] d \<and>
   ((\<forall>k. \<not> fails (i2c d) k) \<and> 1 \<le> width d \<and> width d \<le> 256 \<and>
      1 \<le> pages d \<and> pages d \<le> 256 \<longrightarrow>
      fst (ssd1306_show d) = None \<and>
      emitted d (snd (ssd1306_show d)) =
        [(addr d, [0x80, 0x21]), (addr d, [0x80, 0x00]),
         (addr d, [0x80, word_of_int (width d - 1)]),
         (addr d, [0x80, 0x22]), (addr d, [0x80, 0x00]),
         (addr d, [0x80, word_of_int (pages d - 1)])]
        @ data_frames (addr d) (buffer d)) \<and>
   (CustomSSD1306 fb_new w h bus a ext = Inr d \<longrightarrow>
      length (buffer d) = nat (pages d * width d))"
proof (intro conjI impI)
  show "ssd1306_show d =
     write_elements
       [Command 0x21, Command 0, Command (width d - 1),
        Command 0x22, Command 0, Command (pages d - 1),
        DataRun (buffer d)] d"
    by (simp only: ssd1306_show_elements auto_update_sequence_def)
next
  assume a: "(\<forall>k. \<not> fails (i2c d) k) \<and> 1 \<le> width d \<and> width d \<le> 256 \<and>
      1 \<le> pages d \<and> pages d \<le> 256"
  then have "byte_commands (auto_update_sequence d)"
    by (simp add: auto_update_sequence_def)
  with a have "write_elements (auto_update_sequence d) d =
      (None, sends d (frames (addr d) (auto_update_sequence d)))"
    by (intro write_elements_ok) simp_all
  then have "ssd1306_show d = (None, sends d (frames (addr d) (auto_update_sequence d)))"
    by (simp only: ssd1306_show_elements)
  then show "fst (ssd1306_show d) = None"
    and "emitted d (snd (ssd1306_show d)) =
        [(addr d, [0x80, 0x21]), (addr d, [0x80, 0x00]),
         (addr d, [0x80, word_of_int (width d - 1)]),
         (addr d, [0x80, 0x22]), (addr d, [0x80, 0x00]),
         (addr d, [0x80, word_of_int (pages d - 1)])]
        @ data_frames (addr d) (buffer d)"
    by (simp_all add: auto_update_sequence_def cmd_frame_def)
next
  assume "CustomSSD1306 fb_new w h bus a ext = Inr d"
  then show "length (buffer d) = nat (pages d * width d)"
    using constructed_fields [of fb_new w h bus a ext d] by simp
qed

theorem ssd1306_show_sequence_witness:
  "(\<forall>k. \<not> fails (i2c panel_128x64) k) \<and>
   fst (ssd1306_show panel_128x64) = None \<and>
   emitted panel_128x64 (snd (ssd1306_show panel_128x64)) =
     [(0x3C, [0x80, 0x21]), (0x3C, [0x80, 0x00]), (0x3C, [0x80, 0x7F]),
      (0x3C, [0x80, 0x22]), (0x3C, [0x80, 0x00]), (0x3C, [0x80, 0x07])]
     @ data_frames 0x3C (replicate 1024 0xFF) \<and>
   \<not> isl (CustomSSD1306 FrameBuffer_new 128 64 idle_bus 0x3C False) \<and>
   length (buffer (projr (CustomSSD1306 FrameBuffer_new 128 64 idle_bus 0x3C False))) = 1024"
proof -
  let ?r = "CustomSSD1306 FrameBuffer_new 128 64 idle_bus 0x3C False"
  have "\<exists>d. ?r = Inr d"
    using CustomSSD1306_constructs [of idle_bus FrameBuffer_new 64 128 "0x3C" False]
    by (simp add: idle_bus_def FrameBuffer_new_def)
  then obtain d0 where c: "?r = Inr d0" ..
  have "pages d0 = 8" "width d0 = 128"
    using constructed_fields [of FrameBuffer_new 128 64 idle_bus "0x3C" False d0] c
    by simp_all
  moreover have "length (buffer d0) = nat (pages d0 * width d0)"
    using ssd1306_show_sequence [of d0 FrameBuffer_new 128 64 idle_bus "0x3C" False] c
    by blast
  ultimately have l: "\<not> isl ?r \<and> length (buffer (projr ?r)) = 1024"
    by (simp add: c)
  have "fst (ssd1306_show panel_128x64) = None \<and>
    emitted panel_128x64 (snd (ssd1306_show panel_128x64)) =
     [(0x3C, [0x80, 0x21]), (0x3C, [0x80, 0x00]), (0x3C, [0x80, 0x7F]),
      (0x3C, [0x80, 0x22]), (0x3C, [0x80, 0x00]), (0x3C, [0x80, 0x07])]
     @ data_frames 0x3C (replicate 1024 0xFF)"
    using ssd1306_show_sequence [of panel_128x64, THEN conjunct2, THEN conjunct1]
    by simp
  with l show ?thesis by simp
qed

text \<open>
  C7. For every byte sequence handed to \<^verbatim>\<open>write_data\<close>: when the call returns, the payloads
  of the transactions it put on the bus, each without its first byte, concatenated in
  order, are the original sequence, and that first byte is \<open>0x40\<close> in each; and the call
  does return when no transaction fails.
\<close>

theorem write_data_payloads_reassemble:
  "(fst (write_data d buf) = None \<longrightarrow>
      concat (map (\<lambda>w. tl (snd w)) (emitted d (snd (write_data d buf)))) = buf \<and>
      (\<forall>w \<in> set (emitted d (snd (write_data d buf))). hd (snd w) = 0x40))
   \<and> ((\<forall>k. \<not> fails (i2c d) k) \<longrightarrow> fst (write_data d buf) = None)"
proof (intro conjI impI)
  assume ok: "fst (write_data d buf) = None"
  have e: "emitted d (snd (write_data d buf)) = data_frames (addr d) buf"
    using issues_emitted(3) [OF issues_write_data ok] .
  show "concat (map (\<lambda>w. tl (snd w)) (emitted d (snd (write_data d buf)))) = buf"
    by (simp only: e concat_data_frames)
  show "\<forall>w \<in> set (emitted d (snd (write_data d buf))). hd (snd w) = 0x40"
    by (simp only: e) (blast dest: hd_data_frames)
next
  assume "\<forall>k. \<not> fails (i2c d) k"
  then show "fst (write_data d buf) = None"
    by (simp add: write_data_ok)
qed

theorem write_data_payloads_reassemble_witness:
  "(\<forall>k. \<not> fails (i2c panel_128x64) k) \<and>
   fst (write_data panel_128x64 (replicate 70 0xA5)) = None \<and>
   concat (map (\<lambda>w. tl (snd w))
     (emitted panel_128x64 (snd (write_data panel_128x64 (replicate 70 0xA5))))) = replicate 70 0xA5 \<and>
   list_all (\<lambda>w. hd (snd w) = 0x40)
     (emitted panel_128x64 (snd (write_data panel_128x64 (replicate 70 0xA5))))"
  using write_data_payloads_reassemble [of panel_128x64 "replicate 70 0xA5"]
  by (simp add: list_all_iff)

text \<open>
  C8 (as stated, it fails). \<^verbatim>\<open>rotate\<close> makes two writes, and the second can raise: on a
  bus whose second transaction fails, \<^verbatim>\<open>rotate(True)\<close> raises \<^verbatim>\<open>OSError\<close> having written the
  COM-output-direction command alone.
\<close>

theorem sh1106_rotate_writes_only_com_direction:
  "fst (sh1106_rotate panel_on_failing_bus True) = Some OSError \<and>
   emitted panel_on_failing_bus (snd (sh1106_rotate panel_on_failing_bus True)) =
     [(0x3C, [0x80, 0xC0])]"
  by (simp add: sh1106_rotate_def write_cmd_def bytearray_of_def writeto_def andthen_def
      panel_on_failing_bus_def panel_128x64_def second_write_fails_def idle_bus_def
      emitted_def command_defs)

text \<open>
  C8, amended. \<^verbatim>\<open>rotate(True)\<close> writes the COM-output-direction command and then the
  segment-remap command with their flag bits clear (\<open>0xC0\<close>, \<open>0xA0\<close>), \<^verbatim>\<open>rotate(False)\<close>
  writes them with the bits set (\<open>0xC0 | 0x08\<close>, \<open>0xA0 | 0x01\<close>), the values
  \<^verbatim>\<open>init_commands\<close> holds for the two commands. On every bus a call writes a prefix of its
  pair, so never the segment-remap command alone; a call that returns has written both;
  and when no transaction fails every call returns, so \<^verbatim>\<open>rotate(True)\<close> followed by
  \<^verbatim>\<open>rotate(False)\<close> ends with the values of the initialization.
\<close>

theorem sh1106_rotate_pair:
  "prefix (emitted d (snd (sh1106_rotate d flag)))
     (if flag then [(addr d, [0x80, 0xC0]), (addr d, [0x80, 0xA0])]
      else [(addr d, [0x80, word_of_int (SET_COM_OUT_DIR OR 0x08)]),
            (addr d, [0x80, word_of_int (SET_SEG_REMAP OR 0x01)])]) \<and>
   (fst (sh1106_rotate d flag) = None \<longrightarrow>
      emitted d (snd (sh1106_rotate d flag)) =
        (if flag then [(addr d, [0x80, 0xC0]), (addr d, [0x80, 0xA0])]
         else [(addr d, [0x80, word_of_int (SET_COM_OUT_DIR OR 0x08)]),
               (addr d, [0x80, word_of_int (SET_SEG_REMAP OR 0x01)])])) \<and>
   ((\<forall>k. \<not> fails (i2c d) k) \<longrightarrow>
      fst (sh1106_rotate d flag) = None \<and>
      fst (sh1106_rotate (snd (sh1106_rotate d True)) False) = None \<and>
      emitted d (snd (sh1106_rotate (snd (sh1106_rotate d True)) False)) =
        [(addr d, [0x80, 0xC0]), (addr d, [0x80, 0xA0]),
         (addr d, [0x80, word_of_int (SET_COM_OUT_DIR OR 0x08)]),
         (addr d, [0x80, word_of_int (SET_SEG_REMAP OR 0x01)])]) \<and>
   sh1106_init_commands d ! 10 = SET_SEG_REMAP OR 0x01 \<and>
   sh1106_init_commands d ! 11 = SET_COM_OUT_DIR OR 0x08"
proof (intro conjI impI)
  from logs_perform [of d Paged "Rotate flag"]
  show "prefix (emitted d (snd (sh1106_rotate d flag)))
     (if flag then [(addr d, [0x80, 0xC0]), (addr d, [0x80, 0xA0])]
      else [(addr d, [0x80, word_of_int (SET_COM_OUT_DIR OR 0x08)]),
            (addr d, [0x80, word_of_int (SET_SEG_REMAP OR 0x01)])])"
    by (cases flag) (simp_all add: logs_def cmd_frame_def command_defs)
next
  assume "fst (sh1106_rotate d flag) = None"
  with logs_perform [of d Paged "Rotate flag"]
  show "emitted d (snd (sh1106_rotate d flag)) =
        (if flag then [(addr d, [0x80, 0xC0]), (addr d, [0x80, 0xA0])]
         else [(addr d, [0x80, word_of_int (SET_COM_OUT_DIR OR 0x08)]),
               (addr d, [0x80, word_of_int (SET_SEG_REMAP OR 0x01)])])"
    by (simp add: logs_def cmd_frame_def command_defs)
next
  assume a: "\<forall>k. \<not> fails (i2c d) k"
  have t: "sh1106_rotate d' flag' = (None, sends d' (frames (addr d')
      (if flag' then [Command 0xC0, Command 0xA0] else [Command 0xC8, Command 0xA1])))"
    if "\<forall>k. \<not> fails (i2c d') k" for d' flag'
    using that by (simp only: sh1106_rotate_elements) (rule write_elements_ok, simp_all)
  note t1 = t [OF a, of True]
  have "\<forall>k. \<not> fails (i2c (snd (sh1106_rotate d True))) k"
    using a by (simp add: t1)
  note t3 = t [OF this, of False]
  show "fst (sh1106_rotate d flag) = None"
    by (simp add: t [OF a])
  show "fst (sh1106_rotate (snd (sh1106_rotate d True)) False) = None"
    by (simp add: t3)
  show "emitted d (snd (sh1106_rotate (snd (sh1106_rotate d True)) False)) =
        [(addr d, [0x80, 0xC0]), (addr d, [0x80, 0xA0]),
         (addr d, [0x80, word_of_int (SET_COM_OUT_DIR OR 0x08)]),
         (addr d, [0x80, word_of_int (SET_SEG_REMAP OR 0x01)])]"
    by (simp add: t3) (simp add: t1 cmd_frame_def command_defs)
qed (simp_all add: sh1106_init_commands_def)

theorem sh1106_rotate_pair_witness:
  "(\<forall>k. \<not> fails (i2c panel_128x64) k) \<and>
   fst (sh1106_rotate panel_128x64 True) = None \<and>
   emitted panel_128x64 (snd (sh1106_rotate panel_128x64 True)) =
     [(0x3C, [0x80, 0xC0]), (0x3C, [0x80, 0xA0])] \<and>
   fst (sh1106_rotate (snd (sh1106_rotate panel_128x64 True)) False) = None \<and>
   emitted panel_128x64 (snd (sh1106_rotate (snd (sh1106_rotate panel_128x64 True)) False)) =
     [(0x3C, [0x80, 0xC0]), (0x3C, [0x80, 0xA0]), (0x3C, [0x80, 0xC8]), (0x3C, [0x80, 0xA1])] \<and>
   sh1106_init_commands panel_128x64 ! 10 = 0xA1 \<and>
   sh1106_init_commands panel_128x64 ! 11 = 0xC8"
  using sh1106_rotate_pair [of panel_128x64 True]
  by (simp add: command_defs)

text \<open>
  C9. In both families and for every operation (init, show, power on and off, contrast,
  invert, rotate): the bus only grows, by the image of the operation's command sequence
  (a prefix of it when a write raises partway), in which every \<open>Command c\<close> is exactly one
  transaction whose payload is the two bytes \<open>0x80\<close>, \<open>c\<close> (an opcode and its operand
  are two elements, so two transactions) and every \<open>DataRun\<close> is its data frames. When
  no transaction fails, every command fits a byte and the class defines the method, the
  operation returns and the whole image is on the bus.
\<close>

theorem every_command_is_one_two_byte_write:
  "sent (i2c (snd (perform fam op d))) = sent (i2c d) @ emitted d (snd (perform fam op d)) \<and>
   prefix (emitted d (snd (perform fam op d)))
     (concat (map (\<lambda>e. case e of Command c \<Rightarrow> [(addr d, [0x80, word_of_int c])]
                                | DataRun bs \<Rightarrow> data_frames (addr d) bs)
        (command_sequence fam op d))) \<and>
   (fst (perform fam op d) = None \<longrightarrow>
      emitted d (snd (perform fam op d)) =
        concat (map (\<lambda>e. case e of Command c \<Rightarrow> [(addr d, [0x80, word_of_int c])]
                                | DataRun bs \<Rightarrow> data_frames (addr d) bs)
          (command_sequence fam op d))) \<and>
   ((\<forall>k. \<not> fails (i2c d) k) \<and> byte_commands (command_sequence fam op d) \<and> supported fam op
      \<longrightarrow> fst (perform fam op d) = None)"
proof -
  have "logs d (frames (addr d) (command_sequence fam op d)) (perform fam op d)"
    by (rule logs_perform)
  then have "sent (i2c (snd (perform fam op d))) = sent (i2c d) @ emitted d (snd (perform fam op d))"
    and "prefix (emitted d (snd (perform fam op d))) (frames (addr d) (command_sequence fam op d))"
    and "fst (perform fam op d) = None \<longrightarrow>
      emitted d (snd (perform fam op d)) = frames (addr d) (command_sequence fam op d)"
    by (simp_all add: logs_def split: if_splits)
  moreover have "(\<forall>k. \<not> fails (i2c d) k) \<and> byte_commands (command_sequence fam op d) \<and>
      supported fam op \<longrightarrow> fst (perform fam op d) = None"
    by (simp add: perform_ok)
  ultimately show ?thesis
    by (simp only: frames_concat_map [symmetric])
qed

theorem every_command_is_one_two_byte_write_witness:
  "(\<forall>k. \<not> fails (i2c panel_128x64) k) \<and>
   byte_commands (command_sequence Paged (SetContrast 0x7F) panel_128x64) \<and>
   supported Paged (SetContrast 0x7F) \<and>
   fst (perform Paged (SetContrast 0x7F) panel_128x64) = None \<and>
   emitted panel_128x64 (snd (perform Paged (SetContrast 0x7F) panel_128x64)) =
     [(0x3C, [0x80, 0x81]), (0x3C, [0x80, 0x7F])]"
  using every_command_is_one_two_byte_write [of Paged "SetContrast 0x7F" panel_128x64]
  by simp

text \<open>
  C10. \<^verbatim>\<open>show\<close> never modifies the framebuffer: in both drivers, whether the call returns
  or a transport write raises partway, the buffer, width, height and pages of the object
  are what they were before the call.
\<close>

theorem show_leaves_framebuffer:
  "buffer (snd (sh1106_show d)) = buffer d \<and> width (snd (sh1106_show d)) = width d \<and>
   height (snd (sh1106_show d)) = height d \<and> pages (snd (sh1106_show d)) = pages d \<and>
   buffer (snd (ssd1306_show d)) = buffer d \<and> width (snd (ssd1306_show d)) = width d \<and>
   height (snd (ssd1306_show d)) = height d \<and> pages (snd (ssd1306_show d)) = pages d"
proof -
  have a: "issues d (frames (addr d) (concat (map (sh1106_page_elements d) (py_range (pages d)))))
      (sh1106_show d)"
    unfolding sh1106_show_elements by (rule issues_write_elements)
  have b: "issues d (frames (addr d) (auto_update_sequence d)) (ssd1306_show d)"
    unfolding ssd1306_show_elements by (rule issues_write_elements)
  show ?thesis
    using issues_fields [OF a] issues_fields [OF b] by simp
qed

end
